theory Spec2Isabelle
  imports Main "HOL-Library.Word"
begin

section \<open>Local completion for PHP: the data model of \<^verbatim>\<open>src/complete.ts\<close>\<close>

text \<open>
  JavaScript strings are sequences of UTF-16 code units, and the regular expression
  \<^verbatim>\<open>Identifier\<close> (which has no \<^verbatim>\<open>u\<close> flag) works on code units, so the document text
  and the labels cut out of it are lists of 16-bit words. Node kind names and kind tags
  are compared with ASCII literals only and are plain strings.
\<close>

type_synonym Text = "16 word list"

text \<open>
  Modelled from the spec: \<^verbatim>\<open>doc.sliceString(from, to)\<close> and \<^verbatim>\<open>state.sliceDoc(from, to)\<close>
  belong to the external text buffer; by section 6 they return the literal substring of
  the document in that range, the code units at the offsets \<open>from \<le> i < to\<close>.
\<close>

definition sliceString :: "Text \<Rightarrow> int \<Rightarrow> int \<Rightarrow> Text" where
  "sliceString doc f t = take (nat (t - f)) (drop (nat f) doc)"

text \<open>A \<^verbatim>\<open>Completion\<close> object as the module builds it: \<^verbatim>\<open>{label: name, type}\<close>.\<close>

record Completion =
  label :: Text
  type :: string

text \<open>
  A syntax node of the parser's tree: its identity (what \<^verbatim>\<open>NodeWeakMap\<close> keys on),
  its kind name (empty for an anonymous node), its range and its children, anonymous
  ones included.
\<close>

datatype SyntaxNode =
  SyntaxNode (ident: nat) (name: string) (nfrom: int) (nto: int) (children: "SyntaxNode list")

text \<open>
  The arrays of completions are objects with an identity: the one array that
  \<^verbatim>\<open>getScope\<close> fills is the one it stores in the cache and the one it returns. The store
  \<open>heap\<close> holds the contents of every array allocated so far, an array's address is its
  index there, and \<open>cache\<close> is the module's \<^verbatim>\<open>NodeWeakMap\<close>, from a node identity to the
  address of an array.
\<close>

record state =
  heap :: "Completion list list"
  cache :: "nat \<rightharpoonup> nat"

definition init_state :: state where
  "init_state = \<lparr>heap = [], cache = Map.empty\<rparr>"

text \<open>\<^verbatim>\<open>completions.push(c)\<close> on the array at address \<open>a\<close>.\<close>

definition push :: "nat \<Rightarrow> Completion \<Rightarrow> state \<Rightarrow> state" where
  "push a c s = s\<lparr>heap := (heap s)[a := heap s ! a @ [c]]\<rparr>"

text \<open>
  \<^verbatim>\<open>for (let c of xs) completions.push(c)\<close>, for the elements \<open>xs\<close> of another array:
  one push for each element, in order. The array that is read is never the one that is
  pushed to (the array being filled is not in the cache before the walk is over), so
  its elements are taken as a list beforehand.
\<close>

fun push_all :: "nat \<Rightarrow> Completion list \<Rightarrow> state \<Rightarrow> state" where
  "push_all a [] s = s"
| "push_all a (c # cs) s = push_all a cs (push a c s)"

definition ScopeNodes :: "string set" where
  "ScopeNodes = {''Script'', ''Body'', ''FunctionDefinition'', ''ClassDefinition'',
     ''LambdaExpression'', ''ForStatement''}"

text \<open>
  Modelled from the spec: \<^verbatim>\<open>node.getChild(kindName)\<close> belongs to the external tree
  service; section 4.2 has the extractor look for a direct child of the given kind, so
  this is the first child of the node with that kind name, if any.
\<close>

definition getChild :: "SyntaxNode \<Rightarrow> string \<Rightarrow> SyntaxNode option" where
  "getChild node k = find (\<lambda>c. name c = k) (children node)"

text \<open>
  The local function \<^verbatim>\<open>def\<close> of \<^verbatim>\<open>getScope\<close>, a closure over \<^verbatim>\<open>doc\<close> and the array
  \<^verbatim>\<open>completions\<close>.
\<close>

definition def :: "Text \<Rightarrow> nat \<Rightarrow> SyntaxNode \<Rightarrow> string \<Rightarrow> state \<Rightarrow> state" where
  "def doc completions node ty s =
     (let nm = sliceString doc (nfrom node) (nto node)
      in push completions \<lparr>label = nm, type = ty\<rparr> s)"

type_synonym extractor =
  "SyntaxNode \<Rightarrow> (SyntaxNode \<Rightarrow> string \<Rightarrow> state \<Rightarrow> state) \<Rightarrow> state \<Rightarrow> bool \<times> state"

definition defID :: "string \<Rightarrow> extractor" where
  "defID ty node df s =
     (case getChild node ''VariableName'' of
        Some idn \<Rightarrow> (True, df idn ty s)
      | None \<Rightarrow> (True, s))"

text \<open>
  The table \<^verbatim>\<open>gatherCompletions\<close>. Its prototype is null, so a lookup of any key other
  than its two own keys is \<^verbatim>\<open>undefined\<close>.
\<close>

definition gatherCompletions :: "string \<Rightarrow> extractor option" where
  "gatherCompletions k =
     (if k = ''FunctionDefinition'' then Some (defID ''function'')
      else if k = ''ClassDefinition'' then Some (defID ''class'')
      else None)"

text \<open>
  \<^verbatim>\<open>getScope\<close> with its walk. \<open>iterate\<close> is the walk at one node: the callback that
  \<^verbatim>\<open>getScope\<close> passes to \<^verbatim>\<open>iterate\<close>, then the children unless the callback returned
  \<^verbatim>\<open>false\<close>. The variable \<^verbatim>\<open>top\<close> of the closure is the flag \<open>tp\<close>, threaded with the state.

  Modelled from the spec: the traversal itself (\<^verbatim>\<open>cursor(IterMode.IncludeAnonymous).iterate\<close>)
  belongs to the external tree service; by section 4.1 it calls the callback on the
  root and then on every descendant in pre-order, anonymous nodes included, and skips
  the children of a node whose callback asks for it.
\<close>

function getScope :: "Text \<Rightarrow> SyntaxNode \<Rightarrow> state \<Rightarrow> nat \<times> state"
  and iterate :: "Text \<Rightarrow> nat \<Rightarrow> SyntaxNode \<Rightarrow> bool \<times> state \<Rightarrow> bool \<times> state"
  and iterate_children :: "Text \<Rightarrow> nat \<Rightarrow> SyntaxNode list \<Rightarrow> bool \<times> state \<Rightarrow> bool \<times> state"
where
  "getScope doc node s =
     (case cache s (ident node) of
        Some cached \<Rightarrow> (cached, s)
      | None \<Rightarrow>
          (let completions = length (heap s);
               s1 = s\<lparr>heap := heap s @ [[]]\<rparr>;
               (tp, s2) = iterate doc completions node (True, s1)
           in (completions, s2\<lparr>cache := (cache s2)(ident node \<mapsto> completions)\<rparr>)))"
| "iterate doc completions node (tp, s) =
     (if tp then iterate_children doc completions (children node) (False, s)
      else if name node \<noteq> [] then
        (case gatherCompletions (name node) of
           Some gather \<Rightarrow>
             (let (r, s1) = gather node (def doc completions) s
              in if r \<or> (\<not> tp \<and> name node \<in> ScopeNodes) then (tp, s1)
                 else iterate_children doc completions (children node) (tp, s1))
         | None \<Rightarrow>
             if \<not> tp \<and> name node \<in> ScopeNodes then (tp, s)
             else iterate_children doc completions (children node) (tp, s))
      else if nto node - nfrom node > 8192 then
        (let (c, s1) = getScope doc node s
         in (tp, push_all completions (heap s1 ! c) s1))
      else iterate_children doc completions (children node) (tp, s))"
| "iterate_children doc completions [] ts = ts"
| "iterate_children doc completions (c # cs) ts =
     iterate_children doc completions cs (iterate doc completions c ts)"
  by pat_completeness auto

termination
proof -
  have lt: "size_list size (children n) < size n" for n :: SyntaxNode
    by (cases n) simp
  have le: "3 * size_list size (children n) \<le> Suc (3 * size n)" for n :: SyntaxNode
    using lt [of n] by simp
  show ?thesis
    by (relation "measure (\<lambda>x. case x of
          Inl (doc, node, s) \<Rightarrow> 3 * size node + 1
        | Inr (Inl (doc, a, node, tp, s)) \<Rightarrow> 3 * size node + (if tp then 0 else 2)
        | Inr (Inr (doc, a, cs, ts)) \<Rightarrow> 3 * size_list size cs)")
       (auto simp: less_Suc_eq_le lt le)
qed

declare getScope.simps [simp del] iterate.simps [simp del]

text \<open>
  The regular expression \<^verbatim>\<open>/^[\w\xa1-\uffff][\w\d\xa1-\uffff]*$/\<close>, on code units:
  \<^verbatim>\<open>\w\<close> is \<^verbatim>\<open>[A-Za-z0-9_]\<close>, \<^verbatim>\<open>\d\<close> is \<^verbatim>\<open>[0-9]\<close>, and the range
  \<^verbatim>\<open>\xa1-\uffff\<close> is every code unit from \<open>0xa1\<close> on. \<open>Identifier cs\<close> is
  \<^verbatim>\<open>Identifier.test(cs)\<close>; the expression has no flags, so \<^verbatim>\<open>^\<close> and \<^verbatim>\<open>$\<close> anchor it
  to the whole string.
\<close>

definition word_char :: "16 word \<Rightarrow> bool" where
  "word_char c \<longleftrightarrow>
     (0x41 \<le> c \<and> c \<le> 0x5a) \<or> (0x61 \<le> c \<and> c \<le> 0x7a) \<or> (0x30 \<le> c \<and> c \<le> 0x39) \<or> c = 0x5f"

definition digit_char :: "16 word \<Rightarrow> bool" where
  "digit_char c \<longleftrightarrow> 0x30 \<le> c \<and> c \<le> 0x39"

definition Identifier_first :: "16 word \<Rightarrow> bool" where
  "Identifier_first c \<longleftrightarrow> word_char c \<or> (0xa1 \<le> c \<and> c \<le> 0xffff)"

definition Identifier_rest :: "16 word \<Rightarrow> bool" where
  "Identifier_rest c \<longleftrightarrow> word_char c \<or> digit_char c \<or> (0xa1 \<le> c \<and> c \<le> 0xffff)"

fun Identifier :: "Text \<Rightarrow> bool" where
  "Identifier [] = False"
| "Identifier (c # cs) = (Identifier_first c \<and> list_all Identifier_rest cs)"

definition dontComplete :: "string list" where
  "dontComplete = [''String'', ''FormatString'', ''Comment'', ''PropertyName'']"

text \<open>\<^verbatim>\<open>xs.indexOf(x)\<close>: the index of the first occurrence, \<open>-1\<close> when there is none.\<close>

fun indexOf :: "'a list \<Rightarrow> 'a \<Rightarrow> int" where
  "indexOf [] x = - 1"
| "indexOf (y # ys) x =
     (if y = x then 0 else (let i = indexOf ys x in if i = - 1 then - 1 else i + 1))"

text \<open>
  A completion request: the document and the syntax tree of \<^verbatim>\<open>context.state\<close>, the
  cursor offset and the explicit-trigger flag.
\<close>

record CompletionContext =
  state_doc :: Text
  state_tree :: SyntaxNode
  pos :: int
  explicit :: bool

text \<open>
  The result object. \<open>validFor\<close> is always the regular expression \<^verbatim>\<open>Identifier\<close>, kept
  here as the predicate it tests.
\<close>

record CompletionResult =
  options :: "Completion list"
  rfrom :: int
  validFor :: "Text \<Rightarrow> bool"

text \<open>
  A node handle with its parents is a path from the root of the tree: the child index
  to take at each level. \<open>path_nodes\<close> lists the nodes on the path from the root down
  (a path stops at an index that is not a child), and \<open>parent_chain\<close> is the sequence
  \<^verbatim>\<open>inner, inner.parent, inner.parent.parent, ...\<close> that the loop of
  \<^verbatim>\<open>localCompletionSource\<close> runs through, up to the root. Anonymous ancestors are kept
  in the chain; their kind name is empty, so the test \<^verbatim>\<open>ScopeNodes.has(pos.name)\<close>
  fails on them.
\<close>

fun path_nodes :: "SyntaxNode \<Rightarrow> nat list \<Rightarrow> SyntaxNode list" where
  "path_nodes n [] = [n]"
| "path_nodes n (i # is) =
     n # (if i < length (children n) then path_nodes (children n ! i) is else [])"

definition parent_chain :: "SyntaxNode \<Rightarrow> nat list \<Rightarrow> SyntaxNode list" where
  "parent_chain t path = rev (path_nodes t path)"

text \<open>
  The loop \<^verbatim>\<open>for (let pos = inner; pos; pos = pos.parent)\<close> over the chain, with
  \<^verbatim>\<open>options = options.concat(getScope(doc, pos))\<close> at every scope node. \<^verbatim>\<open>concat\<close> returns
  a new array, which nothing else refers to, so \<open>options\<close> is kept by its contents.
\<close>

fun scopes_loop :: "Text \<Rightarrow> SyntaxNode list \<Rightarrow> Completion list \<times> state \<Rightarrow> Completion list \<times> state" where
  "scopes_loop d [] os = os"
| "scopes_loop d (p # ps) (opts, s) =
     scopes_loop d ps
       (if name p \<in> ScopeNodes
        then (let (c, s1) = getScope d p s in (opts @ heap s1 ! c, s1))
        else (opts, s))"

text \<open>
  \<^verbatim>\<open>localCompletionSource\<close>. The resolution of the innermost node at the cursor,
  \<^verbatim>\<open>syntaxTree(context.state).resolveInner(context.pos, -1)\<close>, belongs to the external
  tree service and is the parameter \<open>resolveInner\<close>: from the tree, the offset and the
  side to the path of the resolved node. \<open>inner_chain\<close> is the resolved node followed by
  its parents, \<open>inner_node\<close> the resolved node \<^verbatim>\<open>inner\<close> itself (the chain is never
  empty), and \<open>isWord\<close> the local variable of that name. The result is \<open>None\<close> for
  \<^verbatim>\<open>null\<close>.
\<close>

definition inner_chain ::
  "(SyntaxNode \<Rightarrow> int \<Rightarrow> int \<Rightarrow> nat list) \<Rightarrow> CompletionContext \<Rightarrow> SyntaxNode list" where
  "inner_chain resolveInner context =
     parent_chain (state_tree context) (resolveInner (state_tree context) (pos context) (- 1))"

definition inner_node ::
  "(SyntaxNode \<Rightarrow> int \<Rightarrow> int \<Rightarrow> nat list) \<Rightarrow> CompletionContext \<Rightarrow> SyntaxNode" where
  "inner_node resolveInner context = hd (inner_chain resolveInner context)"

definition isWord :: "CompletionContext \<Rightarrow> SyntaxNode \<Rightarrow> bool" where
  "isWord context inner \<longleftrightarrow>
     name inner = ''VariableName'' \<or>
     (nto inner - nfrom inner < 20 \<and>
      Identifier (sliceString (state_doc context) (nfrom inner) (nto inner)))"

definition localCompletionSource ::
  "(SyntaxNode \<Rightarrow> int \<Rightarrow> int \<Rightarrow> nat list) \<Rightarrow> CompletionContext \<Rightarrow> state
     \<Rightarrow> CompletionResult option \<times> state" where
  "localCompletionSource resolveInner context s =
     (let inner = inner_node resolveInner context
      in if indexOf dontComplete (name inner) > - 1 then (None, s)
         else if \<not> isWord context inner \<and> \<not> explicit context then (None, s)
         else
           (let (opts, s1) =
                  scopes_loop (state_doc context) (inner_chain resolveInner context) ([], s)
            in (Some \<lparr>options = opts,
                      rfrom = (if isWord context inner then nfrom inner else pos context),
                      validFor = Identifier\<rparr>, s1)))"

section \<open>Notions used to state the properties\<close>

text \<open>
  The nodes of a tree, the root first. Two different nodes of one tree are different
  objects, so they have different identities: \<open>distinct_ids\<close> is this well-formedness of
  a tree value.
\<close>

fun subnodes :: "SyntaxNode \<Rightarrow> SyntaxNode list" where
  "subnodes (SyntaxNode i nm f t cs) = SyntaxNode i nm f t cs # concat (map subnodes cs)"

definition distinct_ids :: "SyntaxNode \<Rightarrow> bool" where
  "distinct_ids t = distinct (map ident (subnodes t))"

text \<open>
  The candidate list of a node as \<^verbatim>\<open>getScope\<close> computes it on an empty cache: the
  contents of the array it returns.
\<close>

definition scope_candidates :: "Text \<Rightarrow> SyntaxNode \<Rightarrow> Completion list" where
  "scope_candidates doc node = (case getScope doc node init_state of (c, s) \<Rightarrow> heap s ! c)"

text \<open>
  The states the module can be in while one document and one tree are current: the
  cache starts empty and only \<^verbatim>\<open>getScope\<close> writes to it, and it is only ever called on
  nodes of the tree. \<open>calls s s'\<close> is any sequence of calls of \<^verbatim>\<open>getScope\<close> from \<open>s\<close> to
  \<open>s'\<close>, on any documents and nodes.
\<close>

inductive reachable :: "Text \<Rightarrow> SyntaxNode \<Rightarrow> state \<Rightarrow> bool" for doc t where
  init: "reachable doc t init_state"
| step: "reachable doc t s \<Longrightarrow> node \<in> set (subnodes t) \<Longrightarrow> reachable doc t (snd (getScope doc node s))"

inductive calls :: "state \<Rightarrow> state \<Rightarrow> bool" for s where
  none: "calls s s"
| call: "calls s s1 \<Longrightarrow> calls s (snd (getScope doc node s1))"

text \<open>
  The scope nodes that the loop of \<^verbatim>\<open>localCompletionSource\<close> meets: the resolved node
  itself when its kind is scope-introducing, then its scope-introducing ancestors,
  innermost first.
\<close>

definition scope_chain ::
  "(SyntaxNode \<Rightarrow> int \<Rightarrow> int \<Rightarrow> nat list) \<Rightarrow> CompletionContext \<Rightarrow> SyntaxNode list" where
  "scope_chain resolveInner context =
     filter (\<lambda>n. name n \<in> ScopeNodes) (inner_chain resolveInner context)"

text \<open>
  The nodes the walk hands to a recursive call of \<^verbatim>\<open>getScope\<close>: anonymous and wider than
  8192. \<open>spliced_ids node\<close> are the identities of such nodes at or below \<open>node\<close>.
\<close>

definition large_anon :: "SyntaxNode \<Rightarrow> bool" where
  "large_anon m \<longleftrightarrow> name m = [] \<and> 8192 < nto m - nfrom m"

definition spliced_ids :: "SyntaxNode \<Rightarrow> nat set" where
  "spliced_ids node = ident ` {m \<in> set (subnodes node). large_anon m}"

section \<open>The candidate list as a function of the tree\<close>

text \<open>
  What the walk adds to the current array at a node that is not the root of the walk
  (\<open>gathered\<close>) and what \<^verbatim>\<open>getScope\<close> returns for a node (\<open>scope_list\<close>), without the cache.
  The proofs below show that the code computes these lists whenever the cache holds,
  for each node of the tree it has an entry for, an array with that node's list
  (\<open>cache_ok\<close>). \<open>uncached\<close> says that the array being filled is not in the cache yet;
  \<open>frame\<close> and \<open>grow\<close> say what a walk leaves unchanged.
\<close>

definition defined :: "Text \<Rightarrow> SyntaxNode \<Rightarrow> string \<Rightarrow> Completion list" where
  "defined doc node ty =
     (case getChild node ''VariableName'' of
        Some idn \<Rightarrow> [\<lparr>label = sliceString doc (nfrom idn) (nto idn), type = ty\<rparr>]
      | None \<Rightarrow> [])"

fun gathered :: "Text \<Rightarrow> SyntaxNode \<Rightarrow> Completion list" where
  "gathered doc (SyntaxNode i nm f t cs) =
     (if nm = ''FunctionDefinition'' then defined doc (SyntaxNode i nm f t cs) ''function''
      else if nm = ''ClassDefinition'' then defined doc (SyntaxNode i nm f t cs) ''class''
      else if nm \<in> ScopeNodes then []
      else concat (map (gathered doc) cs))"

definition scope_list :: "Text \<Rightarrow> SyntaxNode \<Rightarrow> Completion list" where
  "scope_list doc node = concat (map (gathered doc) (children node))"

definition cache_ok :: "Text \<Rightarrow> SyntaxNode \<Rightarrow> state \<Rightarrow> bool" where
  "cache_ok doc t s \<longleftrightarrow>
     (\<forall>n \<in> set (subnodes t). \<forall>a. cache s (ident n) = Some a \<longrightarrow>
        a < length (heap s) \<and> heap s ! a = scope_list doc n)"

definition uncached :: "SyntaxNode \<Rightarrow> nat \<Rightarrow> state \<Rightarrow> bool" where
  "uncached t a s \<longleftrightarrow> (\<forall>n \<in> set (subnodes t). cache s (ident n) \<noteq> Some a)"

definition frame :: "nat \<Rightarrow> state \<Rightarrow> state \<Rightarrow> bool" where
  "frame a s s' \<longleftrightarrow>
     length (heap s) \<le> length (heap s') \<and>
     (\<forall>b < length (heap s). b \<noteq> a \<longrightarrow> heap s' ! b = heap s ! b) \<and>
     (\<forall>k b. cache s' k = Some b \<longrightarrow> cache s k = Some b \<or> length (heap s) \<le> b)"

definition getScope_post :: "Text \<Rightarrow> SyntaxNode \<Rightarrow> SyntaxNode \<Rightarrow> state \<Rightarrow> nat \<times> state \<Rightarrow> bool" where
  "getScope_post doc t node s r \<longleftrightarrow>
     (case r of (c, s') \<Rightarrow>
        cache_ok doc t s' \<and> c < length (heap s') \<and> heap s' ! c = scope_list doc node \<and>
        frame (length (heap s)) s s')"

definition walk_post :: "Text \<Rightarrow> SyntaxNode \<Rightarrow> nat \<Rightarrow> Completion list \<Rightarrow> state \<Rightarrow> bool \<times> state \<Rightarrow> bool" where
  "walk_post doc t a xs s r \<longleftrightarrow>
     (case r of (tp', s') \<Rightarrow>
        \<not> tp' \<and> cache_ok doc t s' \<and> heap s' ! a = heap s ! a @ xs \<and> frame a s s')"

definition grow :: "nat \<Rightarrow> state \<Rightarrow> state \<Rightarrow> bool" where
  "grow a s s' \<longleftrightarrow>
     length (heap s) \<le> length (heap s') \<and>
     (\<forall>b < length (heap s). b \<noteq> a \<longrightarrow> heap s' ! b = heap s ! b) \<and>
     cache s \<subseteq>\<^sub>m cache s'"

section \<open>Positions below a node, and the states of the store\<close>

text \<open>
  A node whose kind is not in \<^verbatim>\<open>ScopeNodes\<close> is transparent to the walk of an enclosing
  scope: the walk does not stop at it, so what is defined below it belongs to the
  enclosing scope. \<open>walked n\<close> says more: the walk itself goes through the children
  of \<open>n\<close> (at an anonymous node wider than 8192 it takes the node's own list instead).

  \<open>below ok n \<pi>\<close> follows the path \<open>\<pi>\<close> of child indices down from \<open>n\<close> and gives the
  node it comes to, if every node strictly between \<open>n\<close> and that node satisfies \<open>ok\<close>.
  \<open>before n \<pi>\<close> and \<open>after n \<pi>\<close> are the tree \<open>n\<close> cut immediately before and
  immediately after the node at \<open>\<pi>\<close>: they keep the nodes on the path, and of the
  children of each of them those to the left, respectively to the right, of the path.
\<close>

definition transparent :: "SyntaxNode \<Rightarrow> bool" where
  "transparent n \<longleftrightarrow> name n \<notin> ScopeNodes"

definition walked :: "SyntaxNode \<Rightarrow> bool" where
  "walked n \<longleftrightarrow> name n \<notin> ScopeNodes \<and> \<not> large_anon n"

fun below :: "(SyntaxNode \<Rightarrow> bool) \<Rightarrow> SyntaxNode \<Rightarrow> nat list \<Rightarrow> SyntaxNode option" where
  "below ok n [] = None"
| "below ok n [i] = (if i < length (children n) then Some (children n ! i) else None)"
| "below ok n (i # j # js) =
     (if i < length (children n) \<and> ok (children n ! i)
      then below ok (children n ! i) (j # js) else None)"

fun before :: "SyntaxNode \<Rightarrow> nat list \<Rightarrow> SyntaxNode" where
  "before (SyntaxNode k nm f t cs) [] = SyntaxNode k nm f t []"
| "before (SyntaxNode k nm f t cs) [i] = SyntaxNode k nm f t (take i cs)"
| "before (SyntaxNode k nm f t cs) (i # j # js) =
     SyntaxNode k nm f t (take i cs @ (if i < length cs then [before (cs ! i) (j # js)] else []))"

fun after :: "SyntaxNode \<Rightarrow> nat list \<Rightarrow> SyntaxNode" where
  "after (SyntaxNode k nm f t cs) [] = SyntaxNode k nm f t []"
| "after (SyntaxNode k nm f t cs) [i] = SyntaxNode k nm f t (drop (Suc i) cs)"
| "after (SyntaxNode k nm f t cs) (i # j # js) =
     SyntaxNode k nm f t ((if i < length cs then [after (cs ! i) (j # js)] else []) @ drop (Suc i) cs)"

text \<open>
  In the program a cache entry is a reference to an array, which exists. In the store
  an address is a number, and \<open>valid_refs\<close> says that every address in the cache is the
  address of an allocated array. The empty cache has this property and every call of
  \<^verbatim>\<open>getScope\<close>, with any document and any node, keeps it (lemmas \<open>valid_refs_init\<close> and
  \<open>valid_refs_calls\<close> below), so every state of the program has it, also after the
  document has been edited.

  \<open>scope_result doc node s\<close> is the list that \<^verbatim>\<open>getScope\<close> returns for \<open>node\<close> when it is
  called in state \<open>s\<close>.

  \<open>cache_consistent doc t s\<close>: what the cache holds for a node of the tree \<open>t\<close> is the
  list that \<^verbatim>\<open>getScope\<close> computes for this node from the empty cache. Nothing is asked
  of the entries for other nodes: the cache is never cleared, so after an edit it still
  has entries for nodes of earlier trees.
\<close>

definition valid_refs :: "state \<Rightarrow> bool" where
  "valid_refs s \<longleftrightarrow> (\<forall>k c. cache s k = Some c \<longrightarrow> c < length (heap s))"

definition scope_result :: "Text \<Rightarrow> SyntaxNode \<Rightarrow> state \<Rightarrow> Completion list" where
  "scope_result doc node s = (case getScope doc node s of (c, s') \<Rightarrow> heap s' ! c)"

definition cache_consistent :: "Text \<Rightarrow> SyntaxNode \<Rightarrow> state \<Rightarrow> bool" where
  "cache_consistent doc t s \<longleftrightarrow>
     (\<forall>n \<in> set (subnodes t). \<forall>a. cache s (ident n) = Some a \<longrightarrow>
        a < length (heap s) \<and> heap s ! a = scope_candidates doc n)"

section \<open>A concrete document and tree\<close>

text \<open>
  The text \<^verbatim>\<open>function foo { class Bar { "s" } }\<close>, then 8200 spaces, then \<^verbatim>\<open>class Baz\<close>,
  with a tree for it: the repetition of the top-level statements after the function is
  an anonymous node wider than 8192. \<open>ex_resolve\<close> resolves offset 23 to the name
  \<^verbatim>\<open>Bar\<close>, offset 28 to the string, offset 15 to the body of the function and any other
  offset to the body of the class. \<open>ex_warm\<close> is the state after \<^verbatim>\<open>getScope\<close> has run
  on the root with an empty cache, \<open>ex_fresh\<close> a state with one empty array.
  \<open>cx_doc\<close> and \<open>cx_tree\<close> are \<^verbatim>\<open>function () { }\<close>, a function definition with no name.
\<close>

definition ex_doc :: Text where
  "ex_doc =
     [0x66, 0x75, 0x6e, 0x63, 0x74, 0x69, 0x6f, 0x6e, 0x20, 0x66, 0x6f, 0x6f, 0x20, 0x7b, 0x20, 0x63, 0x6c, 0x61, 0x73, 0x73, 0x20, 0x42, 0x61, 0x72, 0x20, 0x7b, 0x20, 0x22, 0x73, 0x22, 0x20, 0x7d, 0x20, 0x7d, 0x20]
     @ replicate 8200 0x20 @ [0x63, 0x6c, 0x61, 0x73, 0x73, 0x20, 0x42, 0x61, 0x7a]"

definition ex_class :: SyntaxNode where
  "ex_class = SyntaxNode 5 ''ClassDefinition'' 15 32
     [SyntaxNode 6 ''class'' 15 20 [], SyntaxNode 7 ''VariableName'' 21 24 [],
      SyntaxNode 8 ''Body'' 25 32 [SyntaxNode 13 ''String'' 27 30 []]]"

definition ex_body :: SyntaxNode where
  "ex_body = SyntaxNode 4 ''Body'' 13 34 [ex_class]"

definition ex_function :: SyntaxNode where
  "ex_function = SyntaxNode 1 ''FunctionDefinition'' 0 34
     [SyntaxNode 2 ''function'' 0 8 [], SyntaxNode 3 ''VariableName'' 9 12 [], ex_body]"

definition ex_repeat :: SyntaxNode where
  "ex_repeat = SyntaxNode 9 [] 35 8244
     [SyntaxNode 10 ''ClassDefinition'' 8235 8244
        [SyntaxNode 11 ''class'' 8235 8240 [], SyntaxNode 12 ''VariableName'' 8241 8244 []]]"

definition ex_tree :: SyntaxNode where
  "ex_tree = SyntaxNode 0 ''Script'' 0 8244 [ex_function, ex_repeat]"

definition ex_context :: CompletionContext where
  "ex_context = \<lparr>state_doc = ex_doc, state_tree = ex_tree, pos = 23, explicit = False\<rparr>"

definition ex_resolve :: "SyntaxNode \<Rightarrow> int \<Rightarrow> int \<Rightarrow> nat list" where
  "ex_resolve t p side = (if p = 23 then [0, 2, 0, 1]
      else if p = 28 then [0, 2, 0, 2, 0]
      else if p = 15 then [0, 2]
      else [0, 2, 0, 2])"

definition ex_foo :: Completion where
  "ex_foo = \<lparr>label = [0x66, 0x6f, 0x6f], type = ''function''\<rparr>"

definition ex_Bar :: Completion where
  "ex_Bar = \<lparr>label = [0x42, 0x61, 0x72], type = ''class''\<rparr>"

definition ex_Baz :: Completion where
  "ex_Baz = \<lparr>label = [0x42, 0x61, 0x7a], type = ''class''\<rparr>"

definition ex_warm :: state where
  "ex_warm = \<lparr>heap = [[ex_foo, ex_Baz], [ex_Baz]], cache = [9 \<mapsto> 1, 0 \<mapsto> 0]\<rparr>"

definition ex_result :: CompletionResult where
  "ex_result = \<lparr>options = [ex_Bar, ex_foo, ex_Baz], rfrom = 21, validFor = Identifier\<rparr>"

definition ex_fresh :: state where
  "ex_fresh = \<lparr>heap = [[]], cache = Map.empty\<rparr>"

definition ex_odd :: SyntaxNode where
  "ex_odd = SyntaxNode 20 ''toString'' 0 34 [SyntaxNode 21 ''constructor'' 0 34 [ex_function]]"

definition cx_doc :: Text where
  "cx_doc = [0x66, 0x75, 0x6e, 0x63, 0x74, 0x69, 0x6f, 0x6e, 0x20, 0x28, 0x29, 0x20, 0x7b, 0x20, 0x7d]"

definition cx_function :: SyntaxNode where
  "cx_function = SyntaxNode 1 ''FunctionDefinition'' 0 15
     [SyntaxNode 2 ''function'' 0 8 [], SyntaxNode 3 ''ParamList'' 9 11 [],
      SyntaxNode 4 ''Body'' 12 15 []]"

definition cx_tree :: SyntaxNode where
  "cx_tree = SyntaxNode 0 ''Script'' 0 15 [cx_function]"

text \<open>
  A second document, \<^verbatim>\<open>class A {} if (x) { class B {} function f() { class Z {} } class C {} } class D {}\<close>,
  with several definitions on each level. In its tree the statements in the block of
  the \<^verbatim>\<open>if\<close> are the children of an anonymous node of width 49, which is the only
  child of the block; the paths from the root are \<open>[1]\<close> to the \<^verbatim>\<open>if\<close> statement,
  \<open>[1, 2]\<close> to its block, \<open>[1, 2, 0]\<close> to the anonymous node and \<open>[1, 2, 0, 1]\<close> to the
  function definition. \<open>cand_A\<close>, ..., \<open>cand_f\<close> are the candidates for the names in
  this document.
\<close>

definition nest_doc :: Text where
  "nest_doc =
     [0x63, 0x6c, 0x61, 0x73, 0x73, 0x20, 0x41, 0x20, 0x7b, 0x7d, 0x20, 0x69, 0x66, 0x20, 0x28, 0x78,
      0x29, 0x20, 0x7b, 0x20, 0x63, 0x6c, 0x61, 0x73, 0x73, 0x20, 0x42, 0x20, 0x7b, 0x7d, 0x20, 0x66,
      0x75, 0x6e, 0x63, 0x74, 0x69, 0x6f, 0x6e, 0x20, 0x66, 0x28, 0x29, 0x20, 0x7b, 0x20, 0x63, 0x6c,
      0x61, 0x73, 0x73, 0x20, 0x5a, 0x20, 0x7b, 0x7d, 0x20, 0x7d, 0x20, 0x63, 0x6c, 0x61, 0x73, 0x73,
      0x20, 0x43, 0x20, 0x7b, 0x7d, 0x20, 0x7d, 0x20, 0x63, 0x6c, 0x61, 0x73, 0x73, 0x20, 0x44, 0x20,
      0x7b, 0x7d]"

definition nest_A :: SyntaxNode where
  "nest_A = SyntaxNode 101 ''ClassDefinition'' 0 10
     [SyntaxNode 102 ''class'' 0 5 [], SyntaxNode 103 ''VariableName'' 6 7 [],
      SyntaxNode 104 ''Body'' 8 10 []]"

definition nest_B :: SyntaxNode where
  "nest_B = SyntaxNode 110 ''ClassDefinition'' 20 30
     [SyntaxNode 111 ''class'' 20 25 [], SyntaxNode 112 ''VariableName'' 26 27 [],
      SyntaxNode 113 ''Body'' 28 30 []]"

definition nest_function :: SyntaxNode where
  "nest_function = SyntaxNode 114 ''FunctionDefinition'' 31 58
     [SyntaxNode 115 ''function'' 31 39 [], SyntaxNode 116 ''VariableName'' 40 41 [],
      SyntaxNode 117 ''ParamList'' 41 43 [],
      SyntaxNode 118 ''Body'' 44 58
        [SyntaxNode 119 ''ClassDefinition'' 46 56
           [SyntaxNode 120 ''class'' 46 51 [], SyntaxNode 121 ''VariableName'' 52 53 [],
            SyntaxNode 122 ''Body'' 54 56 []]]]"

definition nest_C :: SyntaxNode where
  "nest_C = SyntaxNode 123 ''ClassDefinition'' 59 69
     [SyntaxNode 124 ''class'' 59 64 [], SyntaxNode 125 ''VariableName'' 65 66 [],
      SyntaxNode 126 ''Body'' 67 69 []]"

definition nest_D :: SyntaxNode where
  "nest_D = SyntaxNode 127 ''ClassDefinition'' 72 82
     [SyntaxNode 128 ''class'' 72 77 [], SyntaxNode 129 ''VariableName'' 78 79 [],
      SyntaxNode 130 ''Body'' 80 82 []]"

definition nest_anon :: SyntaxNode where
  "nest_anon = SyntaxNode 109 [] 20 69 [nest_B, nest_function, nest_C]"

definition nest_if :: SyntaxNode where
  "nest_if = SyntaxNode 105 ''IfStatement'' 11 71
     [SyntaxNode 106 ''if'' 11 13 [], SyntaxNode 107 ''ParenthesizedExpression'' 14 17 [],
      SyntaxNode 108 ''Block'' 18 71 [nest_anon]]"

definition nest_tree :: SyntaxNode where
  "nest_tree = SyntaxNode 100 ''Script'' 0 82 [nest_A, nest_if, nest_D]"

definition cand_A :: Completion where
  "cand_A = \<lparr>label = [0x41], type = ''class''\<rparr>"

definition cand_B :: Completion where
  "cand_B = \<lparr>label = [0x42], type = ''class''\<rparr>"

definition cand_C :: Completion where
  "cand_C = \<lparr>label = [0x43], type = ''class''\<rparr>"

definition cand_D :: Completion where
  "cand_D = \<lparr>label = [0x44], type = ''class''\<rparr>"

definition cand_f :: Completion where
  "cand_f = \<lparr>label = [0x66], type = ''function''\<rparr>"

text \<open>
  A state after an edit. \<open>ex_old_doc\<close> is an earlier version of \<open>ex_doc\<close>, ending with
  \<^verbatim>\<open>class Qux\<close> instead of \<^verbatim>\<open>class Baz\<close>; its tree \<open>ex_old_tree\<close> has other nodes than
  \<open>ex_tree\<close> for the script, the wide anonymous node and the class (40 to 44), and shares
  with it the nodes of the function, which the edit has not touched. \<open>ex_stale\<close> is the
  state after \<^verbatim>\<open>getScope\<close> has run on the old script and on the body of the function
  (lemma \<open>ex_stale_history\<close> below): the cache has entries for the old script and for its
  wide anonymous node, which are not nodes of \<open>ex_tree\<close> and hold \<^verbatim>\<open>Qux\<close>, and an entry
  for the body of the function. No sequence of calls on \<open>ex_doc\<close> and \<open>ex_tree\<close> leads
  to this state.
\<close>

definition ex_old_doc :: Text where
  "ex_old_doc =
     [0x66, 0x75, 0x6e, 0x63, 0x74, 0x69, 0x6f, 0x6e, 0x20, 0x66, 0x6f, 0x6f, 0x20, 0x7b, 0x20, 0x63,
      0x6c, 0x61, 0x73, 0x73, 0x20, 0x42, 0x61, 0x72, 0x20, 0x7b, 0x20, 0x22, 0x73, 0x22, 0x20, 0x7d,
      0x20, 0x7d, 0x20]
     @ replicate 8200 0x20 @ [0x63, 0x6c, 0x61, 0x73, 0x73, 0x20, 0x51, 0x75, 0x78]"

definition ex_old_tree :: SyntaxNode where
  "ex_old_tree = SyntaxNode 40 ''Script'' 0 8244
     [ex_function,
      SyntaxNode 41 [] 35 8244
        [SyntaxNode 42 ''ClassDefinition'' 8235 8244
           [SyntaxNode 43 ''class'' 8235 8240 [], SyntaxNode 44 ''VariableName'' 8241 8244 []]]]"

definition ex_Qux :: Completion where
  "ex_Qux = \<lparr>label = [0x51, 0x75, 0x78], type = ''class''\<rparr>"

definition ex_stale :: state where
  "ex_stale = \<lparr>heap = [[ex_foo, ex_Qux], [ex_Qux], [ex_Bar]],
               cache = [41 \<mapsto> 1, 40 \<mapsto> 0, 4 \<mapsto> 2]\<rparr>"

section \<open>Properties of the walk\<close>

text \<open>
  First the correctness of \<^verbatim>\<open>getScope\<close> against \<open>scope_list\<close> (lemma \<open>walk_correct\<close>,
  by induction along the recursion of the three functions), then what a call does to
  the cache and to the arrays that exist already (lemma \<open>cache_growth\<close>), then the
  evaluation of the example.
\<close>

lemma subnodes_self: "n \<in> set (subnodes n)"
  by (cases n) simp

lemma subnodes_child: "c \<in> set (children n) \<Longrightarrow> set (subnodes c) \<subseteq> set (subnodes n)"
  by (cases n) auto

lemma subnodes_trans: "m \<in> set (subnodes t) \<Longrightarrow> set (subnodes m) \<subseteq> set (subnodes t)"
proof (induction t rule: subnodes.induct)
  case (1 i nm f t cs)
  then show ?case by (auto simp: subnodes_self)
qed

lemma subnodes_children: "m \<in> set (subnodes t) \<Longrightarrow> set (children m) \<subseteq> set (subnodes t)"
  using subnodes_trans subnodes_child subnodes_self by blast

lemma gathered_unfold:
  "gathered doc n =
     (if name n = ''FunctionDefinition'' then defined doc n ''function''
      else if name n = ''ClassDefinition'' then defined doc n ''class''
      else if name n \<in> ScopeNodes then []
      else concat (map (gathered doc) (children n)))"
  by (cases n) simp

lemma frame_refl: "frame a s s"
  by (simp add: frame_def)

lemma frame_trans: "frame a s s1 \<Longrightarrow> frame a s1 s2 \<Longrightarrow> frame a s s2"
  unfolding frame_def by (metis (no_types, lifting) le_trans less_le_trans)

lemma heap_push: "heap (push a c s) = (heap s)[a := heap s ! a @ [c]]"
  and cache_push: "cache (push a c s) = cache s"
  by (simp_all add: push_def)

lemma push_all_heap:
  "a < length (heap s) \<Longrightarrow> heap (push_all a xs s) = (heap s)[a := heap s ! a @ xs]"
  by (induction xs arbitrary: s) (simp_all add: heap_push)

lemma push_all_cache: "cache (push_all a xs s) = cache s"
  by (induction xs arbitrary: s) (simp_all add: cache_push)

lemma frame_push_all: "a < length (heap s) \<Longrightarrow> frame a s (push_all a xs s)"
  by (simp add: frame_def push_all_heap push_all_cache)

lemma cache_ok_push_all:
  "cache_ok doc t s \<Longrightarrow> uncached t a s \<Longrightarrow> a < length (heap s) \<Longrightarrow> cache_ok doc t (push_all a xs s)"
  unfolding cache_ok_def uncached_def
  by (auto simp: push_all_heap push_all_cache nth_list_update)

lemma uncached_frame: "frame a s s' \<Longrightarrow> uncached t a s \<Longrightarrow> a < length (heap s) \<Longrightarrow> uncached t a s'"
  unfolding frame_def uncached_def by (metis not_le)

lemma defID_result:
  "defID ty node (def doc a) s =
     (True, case getChild node ''VariableName'' of
              Some idn \<Rightarrow> push a \<lparr>label = sliceString doc (nfrom idn) (nto idn), type = ty\<rparr> s
            | None \<Rightarrow> s)"
  by (simp add: defID_def def_def split: option.splits)

lemma gather_cases:
  "gatherCompletions k = Some g \<Longrightarrow>
     (k = ''FunctionDefinition'' \<and> g = defID ''function'') \<or> (k = ''ClassDefinition'' \<and> g = defID ''class'')"
  by (auto simp: gatherCompletions_def split: if_splits)

lemma gather_None: "gatherCompletions k = None \<longleftrightarrow> k \<noteq> ''FunctionDefinition'' \<and> k \<noteq> ''ClassDefinition''"
  by (auto simp: gatherCompletions_def)

lemma empty_not_scope: "[] \<notin> ScopeNodes"
  by (simp add: ScopeNodes_def)

lemma walk_post_push_all:
  assumes "cache_ok doc t s" "uncached t a s" "a < length (heap s)"
  shows "walk_post doc t a xs s (False, push_all a xs s)"
  using assms by (simp add: walk_post_def cache_ok_push_all frame_push_all push_all_heap)

lemma walk_post_skip:
  assumes "cache_ok doc t s"
  shows "walk_post doc t a [] s (False, s)"
  using assms by (simp add: walk_post_def frame_refl)

lemma frame_length: "frame a s s' \<Longrightarrow> length (heap s) \<le> length (heap s')"
  by (simp add: frame_def)

lemma walk_post_trans:
  assumes "walk_post doc t a xs s (tp1, s1)" "walk_post doc t a ys s1 r"
  shows "walk_post doc t a (xs @ ys) s r"
  using assms by (auto simp: walk_post_def intro: frame_trans)

lemma walk_post_splice:
  assumes ok: "cache_ok doc t s" and un: "uncached t a s" and a: "a < length (heap s)"
    and post: "getScope_post doc t node s (c, s1)"
  shows "walk_post doc t a (scope_list doc node) s (False, push_all a (heap s1 ! c) s1)"
proof -
  from post have ok1: "cache_ok doc t s1" and c: "heap s1 ! c = scope_list doc node"
    and fr: "frame (length (heap s)) s s1"
    by (simp_all add: getScope_post_def)
  from fr a have fra: "frame a s s1" and same: "heap s1 ! a = heap s ! a"
    by (auto simp: frame_def)
  from fra have a1: "a < length (heap s1)" using a frame_length by fastforce
  have un1: "uncached t a s1" using uncached_frame [OF fra un a] .
  have "walk_post doc t a (scope_list doc node) s1 (False, push_all a (scope_list doc node) s1)"
    using walk_post_push_all [OF ok1 un1 a1] .
  then show ?thesis
    using fra same c by (auto simp: walk_post_def intro: frame_trans)
qed

lemma getScope_post_hit:
  assumes "cache_ok doc t s" "node \<in> set (subnodes t)" "cache s (ident node) = Some c"
  shows "getScope_post doc t node s (c, s)"
  using assms by (auto simp: getScope_post_def cache_ok_def frame_refl)

lemma getScope_post_miss:
  assumes ok: "cache_ok doc t s" and n: "node \<in> set (subnodes t)" and d: "distinct_ids t"
    and w: "walk_post doc t (length (heap s)) (scope_list doc node) (s\<lparr>heap := heap s @ [[]]\<rparr>) (tp', s2)"
  shows "getScope_post doc t node s (length (heap s), s2\<lparr>cache := (cache s2)(ident node \<mapsto> length (heap s))\<rparr>)"
proof -
  let ?a = "length (heap s)" and ?s1 = "s\<lparr>heap := heap s @ [[]]\<rparr>"
  from w have ok2: "cache_ok doc t s2" and h: "heap s2 ! ?a = scope_list doc node"
    and fr: "frame ?a ?s1 s2"
    by (simp_all add: walk_post_def)
  from fr have len: "?a < length (heap s2)" by (simp add: frame_def)
  have inj: "m = node" if "m \<in> set (subnodes t)" "ident m = ident node" for m
    using d n that unfolding distinct_ids_def by (meson distinct_map inj_onD)
  have "cache_ok doc t (s2\<lparr>cache := (cache s2)(ident node \<mapsto> ?a)\<rparr>)"
    using ok2 h len inj unfolding cache_ok_def by auto
  moreover have "frame ?a s (s2\<lparr>cache := (cache s2)(ident node \<mapsto> ?a)\<rparr>)"
    using fr unfolding frame_def by (auto simp: nth_append) (meson Suc_leD)
  ultimately show ?thesis using h len by (simp add: getScope_post_def)
qed

lemma alloc_ok:
  assumes "cache_ok doc t s"
  shows "cache_ok doc t (s\<lparr>heap := heap s @ [[]]\<rparr>)" "uncached t (length (heap s)) (s\<lparr>heap := heap s @ [[]]\<rparr>)"
  using assms unfolding cache_ok_def uncached_def by (auto simp: nth_append)

lemma walk_post_D:
  assumes "walk_post doc t a xs s (tp', s')" "uncached t a s" "a < length (heap s)"
  shows "\<not> tp'" "cache_ok doc t s'" "uncached t a s'" "a < length (heap s')"
proof -
  from assms(1) have fr: "frame a s s'" and "\<not> tp'" "cache_ok doc t s'"
    by (simp_all add: walk_post_def)
  then show "\<not> tp'" "cache_ok doc t s'" by simp_all
  show "uncached t a s'" using uncached_frame [OF fr assms(2,3)] .
  show "a < length (heap s')" using frame_length [OF fr] assms(3) by simp
qed

lemma walk_correct:
  assumes d: "distinct_ids t"
  shows "node \<in> set (subnodes t) \<Longrightarrow> cache_ok doc t s \<Longrightarrow>
           getScope_post doc t node s (getScope doc node s)"
    and "node \<in> set (subnodes t) \<Longrightarrow> cache_ok doc t (snd ts) \<Longrightarrow> uncached t a (snd ts) \<Longrightarrow>
           a < length (heap (snd ts)) \<Longrightarrow>
           walk_post doc t a (if fst ts then scope_list doc node else gathered doc node) (snd ts)
             (iterate doc a node ts)"
    and "set cs \<subseteq> set (subnodes t) \<Longrightarrow> \<not> fst ts \<Longrightarrow> cache_ok doc t (snd ts) \<Longrightarrow>
           uncached t a (snd ts) \<Longrightarrow> a < length (heap (snd ts)) \<Longrightarrow>
           walk_post doc t a (concat (map (gathered doc) cs)) (snd ts)
             (iterate_children doc a cs ts)"
proof (induction doc node s and doc a node ts and doc a cs ts
       rule: getScope_iterate_iterate_children.induct)
  case (1 doc node s)
  show ?case
  proof (cases "cache s (ident node)")
    case (Some c)
    then show ?thesis
      using getScope_post_hit [OF "1.prems"(2,1) Some] by (simp add: getScope.simps)
  next
    case None
    let ?a = "length (heap s)" and ?s1 = "s\<lparr>heap := heap s @ [[]]\<rparr>"
    obtain tp' s2 where it: "iterate doc ?a node (True, ?s1) = (tp', s2)"
      by (cases "iterate doc ?a node (True, ?s1)")
    have "walk_post doc t ?a (scope_list doc node) ?s1 (tp', s2)"
      using "1.IH" [OF None refl refl] "1.prems"(1) alloc_ok [OF "1.prems"(2)] it by simp
    from getScope_post_miss [OF "1.prems"(2,1) d this]
    show ?thesis using None it by (simp add: getScope.simps Let_def)
  qed
next
  case (2 doc a node tp s)
  from "2.prems" have n: "node \<in> set (subnodes t)" and ok: "cache_ok doc t s"
    and un: "uncached t a s" and a: "a < length (heap s)"
    by simp_all
  have ch: "set (children node) \<subseteq> set (subnodes t)"
    using subnodes_children [OF n] .
  show ?case
  proof (cases tp)
    case True
    then show ?thesis
      using "2.IH"(1) ch ok un a by (simp add: iterate.simps scope_list_def)
  next
    case False
    note ntp = False
    show ?thesis
    proof (cases "name node = []")
      case anon: True
      show ?thesis
      proof (cases "8192 < nto node - nfrom node")
        case big: True
        obtain c s1 where g: "getScope doc node s = (c, s1)"
          by (cases "getScope doc node s")
        have "getScope_post doc t node s (c, s1)"
          using "2.IH"(4) [OF ntp _ big n ok] anon g by simp
        from walk_post_splice [OF ok un a this]
        show ?thesis
          using ntp anon big g
          by (simp add: iterate.simps gathered_unfold [of doc node] empty_not_scope scope_list_def)
      next
        case small: False
        show ?thesis
          using "2.IH"(5) [OF ntp _ small] ch ok un a ntp anon small
          by (simp add: iterate.simps gathered_unfold [of doc node] empty_not_scope)
      qed
    next
      case named: False
      show ?thesis
      proof (cases "gatherCompletions (name node)")
        case None
        then have nd: "name node \<noteq> ''FunctionDefinition''" "name node \<noteq> ''ClassDefinition''"
          by (simp_all add: gather_None)
        show ?thesis
        proof (cases "name node \<in> ScopeNodes")
          case True
          then show ?thesis
            using ntp named None nd walk_post_skip [OF ok]
            by (simp add: iterate.simps gathered_unfold [of doc node])
        next
          case False
          then show ?thesis
            using "2.IH"(2) [OF ntp named None] ch ok un a ntp named None nd
            by (simp add: iterate.simps gathered_unfold [of doc node])
        qed
      next
        case (Some g)
        from gather_cases [OF Some] obtain ty where
          g: "g = defID ty" and gd: "gathered doc node = defined doc node ty"
          by (auto simp: gathered_unfold [of doc node])
        have "iterate doc a node (tp, s) = (False, push_all a (defined doc node ty) s)"
          using ntp named Some g
          by (simp add: iterate.simps defID_result defined_def split: option.splits)
        then show ?thesis
          using walk_post_push_all [OF ok un a] ntp gd by simp
      qed
    qed
  qed
next
  case (3 doc a ts)
  then show ?case
    using walk_post_skip [of doc t "snd ts" a] by (cases ts) simp
next
  case (4 doc a c cs ts)
  obtain tp s where ts: "ts = (tp, s)" by (cases ts)
  obtain tp1 s1 where it: "iterate doc a c ts = (tp1, s1)" by (cases "iterate doc a c ts")
  from "4.prems" ts have c: "c \<in> set (subnodes t)" and cs: "set cs \<subseteq> set (subnodes t)"
    and ntp: "\<not> tp" and ok: "cache_ok doc t s" and un: "uncached t a s"
    and a: "a < length (heap s)"
    by simp_all
  have w1: "walk_post doc t a (gathered doc c) s (tp1, s1)"
    using "4.IH"(1) c ok un a ntp ts it by simp
  note D = walk_post_D [OF w1 un a]
  have "walk_post doc t a (concat (map (gathered doc) cs)) s1 (iterate_children doc a cs (tp1, s1))"
    using "4.IH"(2) cs D it by simp
  from walk_post_trans [OF w1 this]
  show ?case using ts it by simp
qed

lemma cache_ok_init: "cache_ok doc t init_state"
  by (simp add: cache_ok_def init_state_def)

lemma getScope_correct:
  assumes "distinct_ids t" "node \<in> set (subnodes t)" "cache_ok doc t s"
    and "getScope doc node s = (c, s')"
  shows "cache_ok doc t s'" "heap s' ! c = scope_list doc node"
  using walk_correct(1) [OF assms(1,2,3)] assms(4) by (simp_all add: getScope_post_def)

lemma reachable_cache_ok:
  assumes "distinct_ids t" "reachable doc t s"
  shows "cache_ok doc t s"
  using assms(2)
proof (induction rule: reachable.induct)
  case init
  show ?case by (rule cache_ok_init)
next
  case (step s node)
  then show ?case
    using getScope_correct(1) [OF assms(1), of node doc s] by (cases "getScope doc node s") simp
qed

lemma scope_candidates_eq:
  assumes "distinct_ids t" "node \<in> set (subnodes t)"
  shows "scope_candidates doc node = scope_list doc node"
  using getScope_correct(2) [OF assms cache_ok_init]
  by (cases "getScope doc node init_state") (simp add: scope_candidates_def)

lemma path_nodes_subnodes: "set (path_nodes n p) \<subseteq> set (subnodes n)"
proof (induction n p rule: path_nodes.induct)
  case (1 n)
  show ?case by (simp add: subnodes_self)
next
  case (2 n i "is")
  show ?case
  proof (cases "i < length (children n)")
    case True
    then have "children n ! i \<in> set (children n)" by simp
    from subnodes_child [OF this] 2 True show ?thesis
      by (auto simp: subnodes_self)
  next
    case False
    then show ?thesis by (simp add: subnodes_self)
  qed
qed

lemma inner_chain_not_empty: "inner_chain R context \<noteq> []"
  by (cases "R (state_tree context) (pos context) (- 1)")
     (simp_all add: inner_chain_def parent_chain_def)

lemma inner_chain_subnodes: "set (inner_chain R context) \<subseteq> set (subnodes (state_tree context))"
  by (simp add: inner_chain_def parent_chain_def path_nodes_subnodes)

lemma scopes_loop_correct:
  assumes d: "distinct_ids t"
  shows "set ps \<subseteq> set (subnodes t) \<Longrightarrow> cache_ok doc t s \<Longrightarrow>
           fst (scopes_loop doc ps (opts, s)) =
             opts @ concat (map (scope_list doc) (filter (\<lambda>n. name n \<in> ScopeNodes) ps)) \<and>
           cache_ok doc t (snd (scopes_loop doc ps (opts, s)))"
proof (induction ps arbitrary: opts s)
  case Nil
  then show ?case by simp
next
  case (Cons p ps)
  show ?case
  proof (cases "name p \<in> ScopeNodes")
    case True
    obtain c s1 where g: "getScope doc p s = (c, s1)" by (cases "getScope doc p s")
    from Cons.prems have p: "p \<in> set (subnodes t)" by simp
    note gc = getScope_correct [OF d p Cons.prems(2) g]
    from Cons.IH [of s1 "opts @ heap s1 ! c"] Cons.prems(1) gc True g
    show ?thesis by simp
  next
    case False
    with Cons show ?thesis by simp
  qed
qed

lemma scopes_loop_reachable:
  "set ps \<subseteq> set (subnodes t) \<Longrightarrow> reachable doc t s \<Longrightarrow>
     reachable doc t (snd (scopes_loop doc ps (opts, s)))"
proof (induction ps arbitrary: opts s)
  case Nil
  then show ?case by simp
next
  case (Cons p ps)
  show ?case
  proof (cases "name p \<in> ScopeNodes")
    case True
    from Cons.prems have "reachable doc t (snd (getScope doc p s))"
      by (auto intro: reachable.step)
    from Cons.IH [OF _ this] Cons.prems(1) True show ?thesis
      by (cases "getScope doc p s") simp
  next
    case False
    with Cons show ?thesis by simp
  qed
qed

lemma indexOf_mem: "indexOf xs x > - 1 \<longleftrightarrow> x \<in> set xs"
proof (induction xs)
  case Nil
  show ?case by simp
next
  case (Cons y ys)
  have "indexOf ys x \<ge> - 1" for ys :: "'a list"
    by (induction ys) (auto simp: Let_def)
  from this [of ys] Cons show ?case by (auto simp: Let_def)
qed

lemma excluded_iff:
  "indexOf dontComplete k > - 1 \<longleftrightarrow> k \<in> {''String'', ''FormatString'', ''Comment'', ''PropertyName''}"
  by (simp add: indexOf_mem dontComplete_def)

lemma map_scopes_eq:
  assumes "distinct_ids t" "set ps \<subseteq> set (subnodes t)"
  shows "map (scope_candidates doc) (filter P ps) = map (scope_list doc) (filter P ps)"
  using assms by (auto simp: scope_candidates_eq subset_iff)

lemma getScope_hit: "cache s (ident node) = Some c \<Longrightarrow> getScope doc node s = (c, s)"
  by (simp add: getScope.simps)

lemma getScope_miss:
  "cache s (ident node) = None \<Longrightarrow>
     getScope doc node s =
       (length (heap s),
        (snd (iterate doc (length (heap s)) node (True, s\<lparr>heap := heap s @ [[]]\<rparr>)))
          \<lparr>cache := (cache (snd (iterate doc (length (heap s)) node (True, s\<lparr>heap := heap s @ [[]]\<rparr>))))
             (ident node \<mapsto> length (heap s))\<rparr>)"
  by (simp add: getScope.simps Let_def split: prod.splits)

lemma getScope_cached: "getScope doc node s = (c, s') \<Longrightarrow> cache s' (ident node) = Some c"
  by (cases "cache s (ident node)") (auto simp: getScope_hit getScope_miss)

lemma getScope_again: "getScope doc node s = (c, s') \<Longrightarrow> getScope doc' node s' = (c, s')"
  using getScope_cached getScope_hit by blast

lemma grow_refl: "grow a s s"
  by (simp add: grow_def)

lemma grow_trans: "grow a s s1 \<Longrightarrow> grow a s1 s2 \<Longrightarrow> grow a s s2"
  unfolding grow_def by (auto intro: map_le_trans)

lemma grow_push_all: "grow a s (push_all a xs s)"
proof (induction xs arbitrary: s)
  case Nil
  show ?case by (simp add: grow_refl)
next
  case (Cons x xs)
  have "grow a s (push a x s)" by (simp add: grow_def push_def)
  from grow_trans [OF this Cons] show ?case by simp
qed

lemma grow_weaken: "grow (length (heap s)) s s' \<Longrightarrow> grow a s s'"
  by (auto simp: grow_def)

lemma spliced_child: "c \<in> set (children n) \<Longrightarrow> spliced_ids c \<subseteq> spliced_ids n"
  using subnodes_child unfolding spliced_ids_def by blast

lemma spliced_self: "large_anon n \<Longrightarrow> ident n \<in> spliced_ids n"
  by (auto simp: spliced_ids_def subnodes_self)

lemma dom_sub: "D \<subseteq> A \<union> C \<Longrightarrow> C \<subseteq> B \<Longrightarrow> D \<subseteq> A \<union> B"
  by blast

lemma dom_sub2: "D \<subseteq> B \<union> C \<Longrightarrow> B \<subseteq> A \<union> E \<Longrightarrow> D \<subseteq> A \<union> (E \<union> C)"
  by blast

lemma children_case:
  assumes eq: "iterate doc a node (tp, s) = iterate_children doc a (children node) (tp', s)"
    and ntp: "\<not> tp'"
    and IH: "(\<not> fst (tp', s) \<longrightarrow> \<not> fst (iterate_children doc a (children node) (tp', s))) \<and>
         grow a (snd (tp', s)) (snd (iterate_children doc a (children node) (tp', s))) \<and>
         dom (cache (snd (iterate_children doc a (children node) (tp', s))))
           \<subseteq> dom (cache (snd (tp', s))) \<union> (\<Union>c \<in> set (children node). spliced_ids c)"
  shows "\<not> fst (iterate doc a node (tp, s)) \<and>
         grow a (snd (tp, s)) (snd (iterate doc a node (tp, s))) \<and>
         dom (cache (snd (iterate doc a node (tp, s)))) \<subseteq> dom (cache (snd (tp, s))) \<union> spliced_ids node"
proof -
  have ch: "(\<Union>c \<in> set (children node). spliced_ids c) \<subseteq> spliced_ids node"
    using spliced_child by blast
  from IH ntp have A: "\<not> fst (iterate_children doc a (children node) (tp', s))"
    and B: "grow a s (snd (iterate_children doc a (children node) (tp', s)))"
    and C: "dom (cache (snd (iterate_children doc a (children node) (tp', s))))
           \<subseteq> dom (cache s) \<union> (\<Union>c \<in> set (children node). spliced_ids c)"
    by simp_all
  show ?thesis unfolding eq using A B dom_sub [OF C ch] by simp
qed

lemma alloc_grow:
  assumes g: "grow (length (heap s)) (s\<lparr>heap := heap s @ [[]]\<rparr>) s2"
    and k: "cache s k = None"
  shows "grow (length (heap s)) s (s2\<lparr>cache := (cache s2)(k \<mapsto> v)\<rparr>)"
proof -
  from g have len: "Suc (length (heap s)) \<le> length (heap s2)"
    and cells: "\<And>b. b < Suc (length (heap s)) \<Longrightarrow> b \<noteq> length (heap s) \<Longrightarrow>
                  heap s2 ! b = (heap s @ [[]]) ! b"
    and le: "cache s \<subseteq>\<^sub>m cache s2"
    by (simp_all add: grow_def)
  have 1: "length (heap s) \<le> length (heap s2)" using len by simp
  have 2: "heap s2 ! b = heap s ! b" if "b < length (heap s)" for b
    using cells [of b] that by (simp add: nth_append)
  have 3: "cache s \<subseteq>\<^sub>m (cache s2)(k \<mapsto> v)"
    unfolding map_le_def
  proof
    fix x assume x: "x \<in> dom (cache s)"
    with k have "x \<noteq> k" by auto
    moreover from le x have "cache s x = cache s2 x" by (simp add: map_le_def)
    ultimately show "cache s x = ((cache s2)(k \<mapsto> v)) x" by simp
  qed
  show ?thesis using 1 2 3 by (simp add: grow_def)
qed

lemma cache_growth:
  shows "grow (length (heap s)) s (snd (getScope doc node s)) \<and>
         dom (cache (snd (getScope doc node s))) \<subseteq> dom (cache s) \<union> {ident node} \<union> spliced_ids node"
    and "\<not> fst (iterate doc a node ts) \<and> grow a (snd ts) (snd (iterate doc a node ts)) \<and>
         dom (cache (snd (iterate doc a node ts))) \<subseteq> dom (cache (snd ts)) \<union> spliced_ids node"
    and "(\<not> fst ts \<longrightarrow> \<not> fst (iterate_children doc a cs ts)) \<and>
         grow a (snd ts) (snd (iterate_children doc a cs ts)) \<and>
         dom (cache (snd (iterate_children doc a cs ts))) \<subseteq> dom (cache (snd ts)) \<union> (\<Union>c \<in> set cs. spliced_ids c)"
proof (induction doc node s and doc a node ts and doc a cs ts
       rule: getScope_iterate_iterate_children.induct)
  case (1 doc node s)
  show ?case
  proof (cases "cache s (ident node)")
    case (Some c)
    then show ?thesis by (auto simp: getScope_hit grow_refl)
  next
    case None
    let ?a = "length (heap s)" and ?s1 = "s\<lparr>heap := heap s @ [[]]\<rparr>"
    let ?s2 = "snd (iterate doc ?a node (True, ?s1))"
    from "1.IH" [OF None refl refl] have g: "grow ?a ?s1 ?s2"
      and dm: "dom (cache ?s2) \<subseteq> dom (cache s) \<union> spliced_ids node"
      by simp_all
    let ?s3 = "?s2\<lparr>cache := (cache ?s2)(ident node \<mapsto> ?a)\<rparr>"
    have g3: "grow ?a s ?s3"
      using alloc_grow [OF g None] .
    have "dom (cache ?s3) = insert (ident node) (dom (cache ?s2))" by simp
    with dm have d3: "dom (cache ?s3) \<subseteq> dom (cache s) \<union> {ident node} \<union> spliced_ids node"
      by blast
    have eq: "snd (getScope doc node s) = ?s3"
      by (simp add: getScope_miss [OF None])
    show ?thesis unfolding eq using g3 d3 by (rule conjI)
  qed
next
  case (2 doc a node tp s)
  have ch: "(\<Union>c \<in> set (children node). spliced_ids c) \<subseteq> spliced_ids node"
    using spliced_child by blast
  show ?case
  proof (cases tp)
    case True
    then have "iterate doc a node (tp, s) = iterate_children doc a (children node) (False, s)"
      by (simp add: iterate.simps)
    from children_case [OF this _ "2.IH"(1) [OF True]] show ?thesis by simp
  next
    case ntp: False
    show ?thesis
    proof (cases "name node = []")
      case anon: True
      show ?thesis
      proof (cases "8192 < nto node - nfrom node")
        case big: True
        obtain c s1 where gs: "getScope doc node s = (c, s1)" by (cases "getScope doc node s")
        from "2.IH"(4) [OF ntp _ big] anon gs have g0: "grow (length (heap s)) s s1"
          and dm: "dom (cache s1) \<subseteq> dom (cache s) \<union> {ident node} \<union> spliced_ids node"
          by simp_all
        note g = grow_weaken [OF g0, of a]
        have "ident node \<in> spliced_ids node"
          using anon big by (simp add: spliced_self large_anon_def)
        with dm have dm': "dom (cache s1) \<subseteq> dom (cache s) \<union> spliced_ids node" by auto
        have it: "iterate doc a node (tp, s) = (False, push_all a (heap s1 ! c) s1)"
          using ntp anon big gs by (simp add: iterate.simps)
        show ?thesis
          using grow_trans [OF g grow_push_all] dm' by (simp add: it push_all_cache)
      next
        case small: False
        have "iterate doc a node (tp, s) = iterate_children doc a (children node) (tp, s)"
          using ntp anon small by (simp add: iterate.simps)
        from children_case [OF this ntp "2.IH"(5) [OF ntp _ small]] anon show ?thesis by simp
      qed
    next
      case named: False
      show ?thesis
      proof (cases "gatherCompletions (name node)")
        case None
        show ?thesis
        proof (cases "name node \<in> ScopeNodes")
          case True
          then show ?thesis using ntp named None by (simp add: iterate.simps grow_refl)
        next
          case False
          then have "iterate doc a node (tp, s) = iterate_children doc a (children node) (tp, s)"
            using ntp named None by (simp add: iterate.simps)
          from children_case [OF this ntp "2.IH"(2) [OF ntp named None]] False ntp
          show ?thesis by simp
        qed
      next
        case (Some g)
        from gather_cases [OF Some] obtain ty where g: "g = defID ty" by auto
        have "iterate doc a node (tp, s) = (False, push_all a (defined doc node ty) s)"
          using ntp named Some g
          by (simp add: iterate.simps defID_result defined_def split: option.splits)
        then show ?thesis by (simp add: grow_push_all push_all_cache)
      qed
    qed
  qed
next
  case (3 doc a ts)
  show ?case by (simp add: grow_refl)
next
  case (4 doc a c cs ts)
  let ?t1 = "iterate doc a c ts"
  from "4.IH"(1) have 1: "\<not> fst ?t1" "grow a (snd ts) (snd ?t1)"
    "dom (cache (snd ?t1)) \<subseteq> dom (cache (snd ts)) \<union> spliced_ids c"
    by simp_all
  from "4.IH"(2) 1(1) have 2: "\<not> fst (iterate_children doc a cs ?t1)"
    "grow a (snd ?t1) (snd (iterate_children doc a cs ?t1))"
    "dom (cache (snd (iterate_children doc a cs ?t1))) \<subseteq> dom (cache (snd ?t1)) \<union> (\<Union>c \<in> set cs. spliced_ids c)"
    by simp_all
  have U: "(\<Union>c \<in> set (c # cs). spliced_ids c) = spliced_ids c \<union> (\<Union>c \<in> set cs. spliced_ids c)"
    by simp
  have 3: "dom (cache (snd (iterate_children doc a cs ?t1)))
      \<subseteq> dom (cache (snd ts)) \<union> (\<Union>c \<in> set (c # cs). spliced_ids c)"
    unfolding U by (rule dom_sub2 [OF 2(3) 1(3)])
  have eq: "iterate_children doc a (c # cs) ts = iterate_children doc a cs ?t1"
    by simp
  show ?case unfolding eq using 2(1) grow_trans [OF 1(2) 2(2)] 3 by (intro conjI impI)
qed

lemma getScope_grow: "getScope doc node s = (c, s') \<Longrightarrow> grow (length (heap s)) s s'"
  using cache_growth(1) [of s doc node] by simp

lemma calls_grow: "calls s s' \<Longrightarrow> grow (length (heap s)) s s'"
proof (induction rule: calls.induct)
  case none
  show ?case by (rule grow_refl)
next
  case (call s1 doc node)
  have "grow (length (heap s1)) s1 (snd (getScope doc node s1))"
    using cache_growth(1) by simp
  then have "grow (length (heap s)) s1 (snd (getScope doc node s1))"
    using call.IH by (auto simp: grow_def)
  from grow_trans [OF call.IH this] show ?case .
qed

lemma spliced_child_cached:
  "m \<in> set cs \<Longrightarrow> large_anon m \<Longrightarrow> \<not> fst ts \<Longrightarrow>
     ident m \<in> dom (cache (snd (iterate_children doc a cs ts)))"
proof (induction cs arbitrary: ts)
  case Nil
  then show ?case by simp
next
  case (Cons c cs)
  let ?t1 = "iterate doc a c ts"
  have nt: "\<not> fst ?t1" using cache_growth(2) by simp
  show ?case
  proof (cases "m = c")
    case True
    obtain tp s where ts: "ts = (tp, s)" by (cases ts)
    obtain b s1 where gs: "getScope doc m s = (b, s1)" by (cases "getScope doc m s")
    have "?t1 = (False, push_all a (heap s1 ! b) s1)"
      using Cons.prems True ts gs by (simp add: iterate.simps large_anon_def)
    then have "ident m \<in> dom (cache (snd ?t1))"
      using getScope_cached [OF gs] by (auto simp: push_all_cache)
    moreover have "cache (snd ?t1) \<subseteq>\<^sub>m cache (snd (iterate_children doc a cs ?t1))"
      using cache_growth(3) [of ?t1 doc a cs] by (simp add: grow_def)
    ultimately show ?thesis by (auto dest: map_le_implies_dom_le)
  next
    case False
    with Cons.prems have "m \<in> set cs" by simp
    from Cons.IH [OF this Cons.prems(2) nt] show ?thesis by simp
  qed
qed

lemma local_result:
  assumes d: "distinct_ids (state_tree context)"
    and ok: "cache_ok (state_doc context) (state_tree context) s"
  shows "fst (localCompletionSource R context s) =
     (if indexOf dontComplete (name (inner_node R context)) > - 1 then None
      else if \<not> isWord context (inner_node R context) \<and> \<not> explicit context then None
      else Some \<lparr>options = concat (map (scope_candidates (state_doc context)) (scope_chain R context)),
                 rfrom = (if isWord context (inner_node R context)
                          then nfrom (inner_node R context) else pos context),
                 validFor = Identifier\<rparr>)"
proof -
  note L = scopes_loop_correct [OF d inner_chain_subnodes ok, of R "[]"]
  have M: "map (scope_candidates (state_doc context)) (scope_chain R context)
         = map (scope_list (state_doc context)) (scope_chain R context)"
    unfolding scope_chain_def by (rule map_scopes_eq [OF d inner_chain_subnodes])
  show ?thesis
    using L unfolding M
    by (simp add: localCompletionSource_def Let_def scope_chain_def case_prod_beta)
qed

lemma local_reachable:
  assumes "reachable (state_doc context) (state_tree context) s"
  shows "reachable (state_doc context) (state_tree context) (snd (localCompletionSource R context s))"
  using scopes_loop_reachable [OF inner_chain_subnodes assms, of R "[]"] assms
  by (simp add: localCompletionSource_def Let_def case_prod_beta)


lemma distinct_ids_sub:
  assumes "distinct_ids (SyntaxNode i nm f t (pre @ d # post))"
  shows "distinct_ids (SyntaxNode i nm f t pre)" "distinct_ids (SyntaxNode i nm f t post)"
  using assms by (auto simp: distinct_ids_def)

lemma scope_candidates_children:
  assumes "distinct_ids node"
  shows "scope_candidates doc node = concat (map (gathered doc) (children node))"
  using scope_candidates_eq [OF assms subnodes_self] by (simp add: scope_list_def)

lemmas ex_defs = ex_doc_def ex_tree_def ex_function_def ex_body_def ex_class_def ex_repeat_def
  ex_context_def ex_resolve_def init_state_def ex_warm_def ex_foo_def ex_Bar_def ex_Baz_def
  ex_result_def ex_fresh_def ex_odd_def cx_doc_def cx_function_def cx_tree_def
lemmas eval_defs = getScope.simps iterate.simps gatherCompletions_def defID_def getChild_def
  def_def push_def sliceString_def ScopeNodes_def Let_def
lemmas local_defs = localCompletionSource_def inner_node_def inner_chain_def parent_chain_def
  isWord_def dontComplete_def scope_chain_def Identifier_first_def Identifier_rest_def
  word_char_def digit_char_def

lemma ex_distinct: "distinct_ids ex_tree"
  by (simp add: distinct_ids_def ex_defs)

lemma ex_getScope: "getScope ex_doc ex_tree init_state = (0, ex_warm)"
  by (simp add: ex_defs eval_defs)

lemma ex_reachable: "reachable ex_doc ex_tree ex_warm"
  using reachable.step [OF reachable.init subnodes_self, of ex_doc ex_tree]
  by (simp add: ex_getScope)

lemma ex_local: "fst (localCompletionSource ex_resolve ex_context ex_warm) = Some ex_result"
  by (simp add: ex_defs eval_defs local_defs)

subsection \<open>Positions below a node\<close>

lemma before_name [simp]: "name (before n p) = name n" "ident (before n p) = ident n"
  by (induction n p rule: before.induct) simp_all

lemma after_name [simp]: "name (after n p) = name n" "ident (after n p) = ident n"
  by (induction n p rule: after.induct) simp_all

lemma gathered_transparent:
  "transparent n \<Longrightarrow> gathered doc n = concat (map (gathered doc) (children n))"
  by (auto simp: gathered_unfold [of doc n] transparent_def ScopeNodes_def)

lemma gathered_split:
  "below transparent p \<pi> = Some m \<Longrightarrow>
     concat (map (gathered doc) (children p)) =
       concat (map (gathered doc) (children (before p \<pi>))) @ gathered doc m @
       concat (map (gathered doc) (children (after p \<pi>)))"
proof (induction p \<pi> rule: before.induct)
  case (1 k nm f t cs)
  then show ?case by simp
next
  case (2 k nm f t cs i)
  then have i: "i < length cs" and m: "m = cs ! i" by (auto split: if_splits)
  have c: "cs = take i cs @ cs ! i # drop (Suc i) cs" using i by (rule id_take_nth_drop)
  have "concat (map (gathered doc) cs) =
      concat (map (gathered doc) (take i cs @ cs ! i # drop (Suc i) cs))"
    by (rule arg_cong [OF c])
  then show ?case using m by simp
next
  case (3 k nm f t cs i j js)
  from "3.prems" have i: "i < length cs" and tr: "transparent (cs ! i)"
    and b: "below transparent (cs ! i) (j # js) = Some m"
    by (auto split: if_splits)
  note IH = "3.IH" [OF i b]
  have tb: "transparent (before (cs ! i) (j # js))" "transparent (after (cs ! i) (j # js))"
    using tr by (simp_all add: transparent_def)
  have c: "cs = take i cs @ cs ! i # drop (Suc i) cs" using i by (rule id_take_nth_drop)
  have "concat (map (gathered doc) cs) =
      concat (map (gathered doc) (take i cs @ cs ! i # drop (Suc i) cs))"
    by (rule arg_cong [OF c])
  then have "concat (map (gathered doc) cs) =
      concat (map (gathered doc) (take i cs)) @ gathered doc (cs ! i) @
      concat (map (gathered doc) (drop (Suc i) cs))"
    by simp
  then show ?case
    using i IH by (simp add: gathered_transparent [OF tr] gathered_transparent [OF tb(1)]
        gathered_transparent [OF tb(2)])
qed

lemma ids_split:
  assumes "i < length cs"
  shows "map ident (concat (map subnodes cs)) =
     map ident (concat (map subnodes (take i cs))) @ map ident (subnodes (cs ! i)) @
     map ident (concat (map subnodes (drop (Suc i) cs)))"
proof -
  have c: "cs = take i cs @ cs ! i # drop (Suc i) cs" using assms by (rule id_take_nth_drop)
  have "map ident (concat (map subnodes cs)) =
     map ident (concat (map subnodes (take i cs @ cs ! i # drop (Suc i) cs)))"
    by (rule arg_cong [OF c])
  then show ?thesis by simp
qed

lemma ids_take:
  "map ident (concat (map subnodes cs)) =
     map ident (concat (map subnodes (take i cs))) @ map ident (concat (map subnodes (drop i cs)))"
proof -
  have "map ident (concat (map subnodes cs)) =
     map ident (concat (map subnodes (take i cs @ drop i cs)))" by simp
  then show ?thesis by (simp del: append_take_drop_id)
qed

lemma before_ids:
  "distinct (map ident (subnodes n)) \<Longrightarrow>
     distinct (map ident (subnodes (before n p))) \<and>
     set (map ident (subnodes (before n p))) \<subseteq> set (map ident (subnodes n))"
proof (induction n p rule: before.induct)
  case (1 k nm f t cs)
  then show ?case by simp
next
  case (2 k nm f t cs i)
  from "2.prems" show ?case
    by (simp add: ids_take [of cs i]) blast
next
  case (3 k nm f t cs i j js)
  show ?case
  proof (cases "i < length cs")
    case True
    from "3.prems" have "distinct (map ident (subnodes (cs ! i)))"
      by (simp add: ids_split [OF True])
    note IH = "3.IH" [OF True this]
    from "3.prems" IH True show ?thesis
      by (simp add: ids_split [OF True]) blast
  next
    case False
    with "3.prems" show ?thesis by simp
  qed
qed

lemma after_ids:
  "distinct (map ident (subnodes n)) \<Longrightarrow>
     distinct (map ident (subnodes (after n p))) \<and>
     set (map ident (subnodes (after n p))) \<subseteq> set (map ident (subnodes n))"
proof (induction n p rule: after.induct)
  case (1 k nm f t cs)
  then show ?case by simp
next
  case (2 k nm f t cs i)
  from "2.prems" show ?case
    by (simp add: ids_take [of cs "Suc i"]) blast
next
  case (3 k nm f t cs i j js)
  show ?case
  proof (cases "i < length cs")
    case True
    from "3.prems" have "distinct (map ident (subnodes (cs ! i)))"
      by (simp add: ids_split [OF True])
    note IH = "3.IH" [OF True this]
    from "3.prems" IH True show ?thesis
      by (simp add: ids_split [OF True]) blast
  next
    case False
    with "3.prems" show ?thesis by simp
  qed
qed

lemma distinct_ids_before: "distinct_ids p \<Longrightarrow> distinct_ids (before p \<pi>)"
  and distinct_ids_after: "distinct_ids p \<Longrightarrow> distinct_ids (after p \<pi>)"
  using before_ids after_ids by (simp_all add: distinct_ids_def)

lemma scope_split:
  assumes "below transparent p \<pi> = Some m" and "distinct_ids p"
  shows "scope_candidates doc p =
     scope_candidates doc (before p \<pi>) @ gathered doc m @ scope_candidates doc (after p \<pi>)"
  using gathered_split [OF assms(1), of doc]
  by (simp add: scope_candidates_children [OF assms(2)]
      scope_candidates_children [OF distinct_ids_before [OF assms(2)]]
      scope_candidates_children [OF distinct_ids_after [OF assms(2)]])

lemma below_subnodes: "below ok p \<pi> = Some m \<Longrightarrow> m \<in> set (concat (map subnodes (children p)))"
proof (induction ok p \<pi> rule: below.induct)
  case (1 ok n)
  then show ?case by simp
next
  case (2 ok n i)
  then have "i < length (children n)" "m = children n ! i" by (auto split: if_splits)
  then show ?case using subnodes_self [of m] by (auto intro!: bexI [of _ m])
next
  case (3 ok n i j js)
  from "3.prems" have i: "i < length (children n)"
    and b: "below ok (children n ! i) (j # js) = Some m"
    by (auto split: if_splits)
  from "3.IH" [OF _ b] "3.prems" have "m \<in> set (concat (map subnodes (children (children n ! i))))"
    by (auto split: if_splits)
  then have "m \<in> set (subnodes (children n ! i))" by (cases "children n ! i") auto
  then show ?case using i by (auto intro!: bexI [of _ "children n ! i"])
qed

lemma below_in_tree: "below ok p \<pi> = Some m \<Longrightarrow> m \<in> set (subnodes p)"
  using below_subnodes [of ok p \<pi> m] by (cases p) auto

lemma below_proper:
  assumes "below ok p \<pi> = Some m" "distinct_ids p"
  shows "ident m \<noteq> ident p"
  using below_subnodes [OF assms(1)] assms(2)
  by (cases p) (auto simp: distinct_ids_def)

lemma distinct_ids_sub_node:
  "m \<in> set (subnodes p) \<Longrightarrow> distinct_ids p \<Longrightarrow> distinct_ids m"
proof (induction p rule: subnodes.induct)
  case (1 i nm f t cs)
  show ?case
  proof (cases "m = SyntaxNode i nm f t cs")
    case True
    with "1.prems" show ?thesis by simp
  next
    case False
    with "1.prems" obtain c where c: "c \<in> set cs" "m \<in> set (subnodes c)" by auto
    from c(1) obtain k where k: "k < length cs" "cs ! k = c" by (auto simp: in_set_conv_nth)
    from "1.prems"(2) have "distinct_ids c"
      using ids_split [OF k(1)] k(2) by (simp add: distinct_ids_def)
    from "1.IH" [OF c(1) c(2) this] show ?thesis .
  qed
qed

lemma gathered_transparent_scope:
  assumes "transparent m" "distinct_ids m"
  shows "gathered doc m = scope_candidates doc m"
  using gathered_transparent [OF assms(1)] scope_candidates_children [OF assms(2)] by simp

subsection \<open>States of the store\<close>

lemma valid_refs_init: "valid_refs init_state"
  by (simp add: valid_refs_def init_state_def)

lemma push_all_length: "length (heap (push_all a xs s)) = length (heap s)"
  by (induction xs arbitrary: s) (simp_all add: heap_push)

lemma valid_refs_push_all: "valid_refs s \<Longrightarrow> valid_refs (push_all a xs s)"
  by (simp add: valid_refs_def push_all_cache push_all_length)

lemma valid_refs_alloc: "valid_refs s \<Longrightarrow> valid_refs (s\<lparr>heap := heap s @ [[]]\<rparr>)"
  by (auto simp: valid_refs_def less_Suc_eq)

lemma valid_refs_set:
  "valid_refs s \<Longrightarrow> a < length (heap s) \<Longrightarrow> valid_refs (s\<lparr>cache := (cache s)(k \<mapsto> a)\<rparr>)"
  by (auto simp: valid_refs_def)

lemma valid_refs_walk:
  shows "valid_refs s \<Longrightarrow> valid_refs (snd (getScope doc node s))"
    and "valid_refs (snd ts) \<Longrightarrow> valid_refs (snd (iterate doc a node ts))"
    and "valid_refs (snd ts) \<Longrightarrow> valid_refs (snd (iterate_children doc a cs ts))"
proof (induction doc node s and doc a node ts and doc a cs ts
       rule: getScope_iterate_iterate_children.induct)
  case (1 doc node s)
  show ?case
  proof (cases "cache s (ident node)")
    case (Some c)
    with "1.prems" show ?thesis by (simp add: getScope_hit)
  next
    case None
    let ?a = "length (heap s)" and ?s1 = "s\<lparr>heap := heap s @ [[]]\<rparr>"
    let ?s2 = "snd (iterate doc ?a node (True, ?s1))"
    have v2: "valid_refs ?s2"
      using "1.IH" [OF None refl refl] valid_refs_alloc [OF "1.prems"] by simp
    have "grow ?a ?s1 ?s2" using cache_growth(2) [of doc ?a node "(True, ?s1)"] by simp
    then have "?a < length (heap ?s2)" by (simp add: grow_def)
    from valid_refs_set [OF v2 this] show ?thesis by (simp add: getScope_miss [OF None])
  qed
next
  case (2 doc a node tp s)
  from "2.prems" have v: "valid_refs s" by simp
  show ?case
  proof (cases tp)
    case True
    then have "iterate doc a node (tp, s) = iterate_children doc a (children node) (False, s)"
      by (simp add: iterate.simps)
    with "2.IH"(1) [OF True] v show ?thesis by simp
  next
    case ntp: False
    show ?thesis
    proof (cases "name node = []")
      case anon: True
      show ?thesis
      proof (cases "8192 < nto node - nfrom node")
        case big: True
        obtain c s1 where gs: "getScope doc node s = (c, s1)" by (cases "getScope doc node s")
        from "2.IH"(4) [OF ntp _ big v] anon gs have "valid_refs s1" by simp
        then have "valid_refs (push_all a (heap s1 ! c) s1)" by (rule valid_refs_push_all)
        then show ?thesis using ntp anon big gs by (simp add: iterate.simps)
      next
        case small: False
        have "iterate doc a node (tp, s) = iterate_children doc a (children node) (tp, s)"
          using ntp anon small by (simp add: iterate.simps)
        with "2.IH"(5) [OF ntp _ small] anon v show ?thesis by simp
      qed
    next
      case named: False
      show ?thesis
      proof (cases "gatherCompletions (name node)")
        case None
        show ?thesis
        proof (cases "name node \<in> ScopeNodes")
          case True
          then show ?thesis using ntp named None v by (simp add: iterate.simps)
        next
          case False
          then have "iterate doc a node (tp, s) = iterate_children doc a (children node) (tp, s)"
            using ntp named None by (simp add: iterate.simps)
          with "2.IH"(2) [OF ntp named None] False ntp v show ?thesis by simp
        qed
      next
        case (Some g)
        from gather_cases [OF Some] obtain ty where g: "g = defID ty" by auto
        have "iterate doc a node (tp, s) = (False, push_all a (defined doc node ty) s)"
          using ntp named Some g
          by (simp add: iterate.simps defID_result defined_def split: option.splits)
        then show ?thesis using valid_refs_push_all [OF v] by simp
      qed
    qed
  qed
next
  case (3 doc a ts)
  then show ?case by simp
next
  case (4 doc a c cs ts)
  from "4.IH"(2) [OF "4.IH"(1) [OF "4.prems"]] show ?case by simp
qed

lemma calls_trans: "calls b c \<Longrightarrow> calls a b \<Longrightarrow> calls a c"
proof (induction rule: calls.induct)
  case none
  then show ?case .
next
  case (call s1 doc node)
  from calls.call [OF call.IH [OF call.prems]] show ?case .
qed

lemma calls_keep:
  assumes "calls s1 s2" "cache s1 k = Some c" "c < length (heap s1)"
  shows "cache s2 k = Some c" "heap s2 ! c = heap s1 ! c"
proof -
  note g = calls_grow [OF assms(1)]
  from g assms(2) show "cache s2 k = Some c"
    by (auto simp: grow_def map_le_def dom_def)
  from g assms(3) show "heap s2 ! c = heap s1 ! c" by (simp add: grow_def)
qed

lemma scope_result_cached:
  "cache s (ident node) = Some c \<Longrightarrow> scope_result doc node s = heap s ! c"
  by (simp add: scope_result_def getScope_hit)

lemma scopes_loop_result:
  "valid_refs s \<Longrightarrow>
     fst (scopes_loop doc ps (opts, s)) =
       opts @ concat (map (\<lambda>n. scope_result doc n (snd (scopes_loop doc ps (opts, s))))
                        (filter (\<lambda>n. name n \<in> ScopeNodes) ps)) \<and>
     valid_refs (snd (scopes_loop doc ps (opts, s))) \<and>
     calls s (snd (scopes_loop doc ps (opts, s)))"
proof (induction ps arbitrary: opts s)
  case Nil
  then show ?case by (simp add: calls.none)
next
  case (Cons p ps)
  show ?case
  proof (cases "name p \<in> ScopeNodes")
    case True
    obtain c s1 where g: "getScope doc p s = (c, s1)" by (cases "getScope doc p s")
    let ?r = "scopes_loop doc ps (opts @ heap s1 ! c, s1)"
    have v1: "valid_refs s1" using valid_refs_walk(1) [OF Cons.prems, where doc = doc and node = p] g by simp
    have c1: "cache s1 (ident p) = Some c" using getScope_cached [OF g] .
    with v1 have l1: "c < length (heap s1)" by (simp add: valid_refs_def)
    from Cons.IH [OF v1, of "opts @ heap s1 ! c"]
    have f: "fst ?r = (opts @ heap s1 ! c) @
        concat (map (\<lambda>n. scope_result doc n (snd ?r)) (filter (\<lambda>n. name n \<in> ScopeNodes) ps))"
      and v: "valid_refs (snd ?r)" and cl: "calls s1 (snd ?r)"
      by simp_all
    note k = calls_keep [OF cl c1 l1]
    have sr: "scope_result doc p (snd ?r) = heap s1 ! c"
      using scope_result_cached [OF k(1), where doc = doc] k(2) by simp
    have "calls s s1" using calls.call [OF calls.none, where doc = doc and node = p and s = s] g by simp
    then have cs: "calls s (snd ?r)" by (rule calls_trans [OF cl])
    have e: "scopes_loop doc (p # ps) (opts, s) = ?r" using True g by simp
    show ?thesis unfolding e using f v cs sr True by simp
  next
    case False
    with Cons show ?thesis by simp
  qed
qed

lemma cache_consistent_ok:
  assumes "distinct_ids t"
  shows "cache_consistent doc t s \<longleftrightarrow> cache_ok doc t s"
  using scope_candidates_eq [OF assms]
  by (auto simp: cache_consistent_def cache_ok_def)

lemma local_unfold:
  "localCompletionSource R context s =
     (if indexOf dontComplete (name (inner_node R context)) > - 1 then (None, s)
      else if \<not> isWord context (inner_node R context) \<and> \<not> explicit context then (None, s)
      else (Some \<lparr>options = fst (scopes_loop (state_doc context) (inner_chain R context) ([], s)),
                   rfrom = (if isWord context (inner_node R context)
                            then nfrom (inner_node R context) else pos context),
                   validFor = Identifier\<rparr>,
            snd (scopes_loop (state_doc context) (inner_chain R context) ([], s))))"
  by (simp add: localCompletionSource_def Let_def case_prod_beta)

lemma valid_refs_calls: "calls s s' \<Longrightarrow> valid_refs s \<Longrightarrow> valid_refs s'"
  by (induction rule: calls.induct) (simp_all add: valid_refs_walk(1))

lemma reachable_dom: "reachable doc t s \<Longrightarrow> dom (cache s) \<subseteq> ident ` set (subnodes t)"
proof (induction rule: reachable.induct)
  case init
  then show ?case by (simp add: init_state_def)
next
  case (step s node)
  from cache_growth(1) [of s doc node]
  have d: "dom (cache (snd (getScope doc node s))) \<subseteq> dom (cache s) \<union> {ident node} \<union> spliced_ids node"
    by simp
  have sp: "spliced_ids node \<subseteq> ident ` set (subnodes t)"
    using subnodes_trans [OF step.hyps(2)] by (auto simp: spliced_ids_def)
  have n: "ident node \<in> ident ` set (subnodes t)" using step.hyps(2) by simp
  from d sp n step.IH show ?case by blast
qed

subsection \<open>Wide anonymous nodes below a node\<close>

lemma child_dom:
  assumes "c \<in> set cs"
    and "\<And>ts. \<not> fst ts \<Longrightarrow> k \<in> dom (cache (snd (iterate doc a c ts)))"
    and "\<not> fst ts"
  shows "k \<in> dom (cache (snd (iterate_children doc a cs ts)))"
  using assms(1,3)
proof (induction cs arbitrary: ts)
  case Nil
  then show ?case by simp
next
  case (Cons x xs)
  let ?t1 = "iterate doc a x ts"
  have nt: "\<not> fst ?t1" using cache_growth(2) by simp
  show ?case
  proof (cases "c = x")
    case True
    have "k \<in> dom (cache (snd ?t1))" using assms(2) [OF Cons.prems(2)] True by simp
    moreover have "cache (snd ?t1) \<subseteq>\<^sub>m cache (snd (iterate_children doc a xs ?t1))"
      using cache_growth(3) [of ?t1 doc a xs] by (simp add: grow_def)
    ultimately show ?thesis by (auto dest: map_le_implies_dom_le)
  next
    case False
    with Cons.prems have "c \<in> set xs" by simp
    from Cons.IH [OF this nt] show ?thesis by simp
  qed
qed

lemma walked_step:
  assumes "walked c"
  shows "iterate doc a c (False, s) = iterate_children doc a (children c) (False, s)"
proof (cases "name c = []")
  case True
  with assms show ?thesis by (simp add: iterate.simps walked_def large_anon_def)
next
  case False
  from assms have "gatherCompletions (name c) = None"
    by (auto simp: gather_None walked_def ScopeNodes_def)
  with assms False show ?thesis by (simp add: iterate.simps walked_def)
qed

lemma large_step_dom:
  assumes "large_anon m" "\<not> fst ts"
  shows "ident m \<in> dom (cache (snd (iterate doc a m ts)))"
proof -
  obtain tp s where ts: "ts = (tp, s)" by (cases ts)
  obtain b s1 where gs: "getScope doc m s = (b, s1)" by (cases "getScope doc m s")
  have "iterate doc a m ts = (False, push_all a (heap s1 ! b) s1)"
    using assms ts gs by (simp add: iterate.simps large_anon_def)
  then show ?thesis using getScope_cached [OF gs] by (auto simp: push_all_cache)
qed

lemma reach_dom:
  "below walked n \<pi> = Some m \<Longrightarrow> large_anon m \<Longrightarrow> \<not> fst ts \<Longrightarrow>
     ident m \<in> dom (cache (snd (iterate_children doc a (children n) ts)))"
proof (induction walked n \<pi> arbitrary: a ts rule: below.induct)
  case (1 n)
  then show ?case by simp
next
  case (2 n i)
  then have m: "m \<in> set (children n)" by (auto split: if_splits)
  show ?case
    using child_dom [OF m large_step_dom [OF "2.prems"(2)] "2.prems"(3)] .
next
  case (3 n i j js)
  let ?c = "children n ! i"
  from "3.prems" have i: "i < length (children n)" and w: "walked ?c"
    and b: "below walked ?c (j # js) = Some m"
    by (auto split: if_splits)
  have iw: "i < length (children n) \<and> walked ?c" using i w by simp
  note IH = "3.hyps" [OF iw b "3.prems"(2)]
  have st: "ident m \<in> dom (cache (snd (iterate doc a ?c ts)))" if "\<not> fst ts" for a ts
  proof -
    obtain tp s where ts: "ts = (tp, s)" by (cases ts)
    with that have "iterate doc a ?c ts = iterate_children doc a (children ?c) ts"
      using walked_step [OF w] by simp
    with IH [OF that] show ?thesis by simp
  qed
  have c: "?c \<in> set (children n)" using i by simp
  show ?case using child_dom [OF c st "3.prems"(3)] .
qed

lemma walked_transparent: "below walked n \<pi> = Some m \<Longrightarrow> below transparent n \<pi> = Some m"
  by (induction walked n \<pi> rule: below.induct)
     (auto simp: walked_def transparent_def split: if_splits)

lemma getScope_miss_children:
  assumes "cache s (ident p) = None"
  shows "snd (getScope doc p s) =
     (snd (iterate_children doc (length (heap s)) (children p) (False, s\<lparr>heap := heap s @ [[]]\<rparr>)))
       \<lparr>cache := (cache (snd (iterate_children doc (length (heap s)) (children p)
                      (False, s\<lparr>heap := heap s @ [[]]\<rparr>))))(ident p \<mapsto> length (heap s))\<rparr>"
  by (simp add: getScope_miss [OF assms] iterate.simps)

lemma reach_cached:
  assumes "cache s (ident p) = None" "below walked p \<pi> = Some m" "large_anon m"
  shows "ident m \<in> dom (cache (snd (getScope doc p s)))"
proof -
  have "ident m \<in> dom (cache (snd (iterate_children doc (length (heap s)) (children p)
      (False, s\<lparr>heap := heap s @ [[]]\<rparr>))))"
    by (rule reach_dom [OF assms(2,3)]) simp
  then show ?thesis by (simp add: getScope_miss_children [OF assms(1)])
qed

lemma small_not_cached:
  assumes "cache s (ident p) = None" "below ok p \<pi> = Some m" "\<not> large_anon m"
    and "distinct_ids p" "ident m \<notin> dom (cache s)"
  shows "ident m \<notin> dom (cache (snd (getScope doc p s)))"
proof
  assume "ident m \<in> dom (cache (snd (getScope doc p s)))"
  with cache_growth(1) [of s doc p] assms(5)
  have "ident m = ident p \<or> ident m \<in> spliced_ids p" by auto
  with below_proper [OF assms(2,4)] obtain m' where
    m': "m' \<in> set (subnodes p)" "large_anon m'" "ident m' = ident m"
    by (auto simp: spliced_ids_def)
  from assms(4) m'(1,3) below_in_tree [OF assms(2)] have "m' = m"
    unfolding distinct_ids_def by (meson distinct_map inj_onD)
  with m'(2) assms(3) show False by simp
qed

lemma cached_content:
  assumes "distinct_ids p" "cache_consistent doc p s" "m \<in> set (subnodes p)"
    and "cache (snd (getScope doc p s)) (ident m) = Some c"
  shows "heap (snd (getScope doc p s)) ! c = scope_candidates doc m"
proof -
  have ok: "cache_ok doc p s" using assms(2) cache_consistent_ok [OF assms(1)] by simp
  obtain a s' where g: "getScope doc p s = (a, s')" by (cases "getScope doc p s")
  from getScope_correct(1) [OF assms(1) subnodes_self ok g] have "cache_ok doc p s'" .
  with assms(3,4) g have "heap s' ! c = scope_list doc m" by (simp add: cache_ok_def)
  then show ?thesis using g scope_candidates_eq [OF assms(1,3)] by simp
qed

subsection \<open>The examples\<close>

lemmas nest_defs = nest_doc_def nest_A_def nest_B_def nest_function_def nest_C_def nest_D_def
  nest_anon_def nest_if_def nest_tree_def cand_A_def cand_B_def cand_C_def cand_D_def cand_f_def
  ex_old_doc_def ex_old_tree_def ex_Qux_def ex_stale_def

lemma ex_stale_history:
  "snd (getScope ex_old_doc ex_body (snd (getScope ex_old_doc ex_old_tree init_state))) = ex_stale"
  by (simp add: ex_defs nest_defs eval_defs numeral_2_eq_2)

lemma ex_stale_valid: "valid_refs ex_stale"
  by (auto simp: valid_refs_def ex_stale_def split: if_splits)

lemma ex_stale_consistent: "cache_consistent ex_doc ex_tree ex_stale"
  by (simp add: cache_consistent_def scope_candidates_def ex_defs nest_defs eval_defs)

lemma ex_stale_local: "fst (localCompletionSource ex_resolve ex_context ex_stale) = Some ex_result"
  by (simp add: ex_defs nest_defs eval_defs local_defs)

lemma nest_distinct: "distinct_ids nest_tree"
  by (simp add: distinct_ids_def nest_defs)

lemma nest_scope: "scope_candidates nest_doc nest_tree = [cand_A, cand_B, cand_f, cand_C, cand_D]"
  by (simp add: scope_candidates_def nest_defs eval_defs init_state_def)

lemma nest_paths:
  "below transparent nest_tree [1, 2, 0, 1] = Some nest_function"
  "below transparent nest_tree [1, 2, 0, 0] = Some nest_B"
  "below transparent nest_tree [1] = Some nest_if"
  "below transparent nest_tree [1, 2, 0] = Some nest_anon"
  "below walked nest_tree [1, 2, 0] = Some nest_anon"
  by (simp_all add: nest_defs transparent_def walked_def large_anon_def ScopeNodes_def)

lemma ex_stale_calls: "calls init_state ex_stale"
proof -
  have "calls init_state (snd (getScope ex_old_doc ex_old_tree init_state))"
    by (rule calls.call [OF calls.none])
  then have "calls init_state
      (snd (getScope ex_old_doc ex_body (snd (getScope ex_old_doc ex_old_tree init_state))))"
    by (rule calls.call)
  then show ?thesis by (simp only: ex_stale_history)
qed

lemma ex_stale_unreachable: "\<not> reachable ex_doc ex_tree ex_stale"
proof
  assume "reachable ex_doc ex_tree ex_stale"
  from reachable_dom [OF this] have "40 \<in> ident ` set (subnodes ex_tree)"
    by (simp add: ex_stale_def)
  then show False by (simp add: ex_defs)
qed

section \<open>The claims\<close>

text \<open>
  \<^verbatim>\<open>getScope\<close>, \<open>iterate\<close> and \<^verbatim>\<open>localCompletionSource\<close> are total functions: the
  termination of the walk is proved with the definition, so every call returns.
\<close>

text \<open>
  Claim C1, as stated: the options are the candidate lists of the scope-introducing
  ancestors of the resolved node. The loop starts at the resolved node itself, so when
  that node is a scope node its own list comes first. In the example, offset 15 resolves
  to the body of the function, whose ancestors are the function definition and the
  script: their lists are \<^verbatim>\<open>foo, Baz\<close>, and the options are \<^verbatim>\<open>Bar, foo, Baz\<close>.
\<close>

theorem strict_ancestors_counterexample:
  "inner_node ex_resolve (ex_context\<lparr>pos := 15, explicit := True\<rparr>) = ex_body \<and>
   tl (inner_chain ex_resolve (ex_context\<lparr>pos := 15, explicit := True\<rparr>)) = [ex_function, ex_tree] \<and>
   fst (localCompletionSource ex_resolve (ex_context\<lparr>pos := 15, explicit := True\<rparr>) init_state) =
     Some \<lparr>options = [ex_Bar, ex_foo, ex_Baz], rfrom = 15, validFor = Identifier\<rparr> \<and>
   concat (map (scope_candidates ex_doc) [ex_function, ex_tree]) = [ex_foo, ex_Baz] \<and>
   [ex_Bar, ex_foo, ex_Baz] \<noteq> concat (map (scope_candidates ex_doc) [ex_function, ex_tree])"
  by (simp add: scope_candidates_def ex_defs eval_defs local_defs)

text \<open>
  Claim C1, amended: for a request that returns a result, the options are the
  concatenation of the lists of \<^verbatim>\<open>getScope\<close> for the scope nodes on the way from the
  resolved node (itself included) up to the root, innermost first. These lists are the
  ones that \<^verbatim>\<open>getScope\<close> returns for these nodes in the state that the request leaves.
  So however the chain of scope nodes is cut in an inner and an outer part, all
  candidates of the inner part precede all candidates of the outer part, and every
  candidate of every scope node on the way is among the options. This holds in every
  state of the program, whatever documents and trees the earlier calls were for: the
  one hypothesis on the state is that the cache refers to allocated arrays.

  If moreover the nodes of the tree have distinct identities and what the cache holds
  for nodes of this tree is right for the document (\<open>cache_consistent\<close>), then each of
  these lists is the list that \<^verbatim>\<open>getScope\<close> computes for its node from the empty cache,
  and the cache is consistent again afterwards. The witness is at a state left by calls
  for an earlier version of the document.
\<close>

theorem options_innermost_first:
  assumes "valid_refs s"
    and "fst (localCompletionSource resolveInner context s) = Some r"
  shows "options r = concat (map (\<lambda>n. scope_result (state_doc context) n
                                    (snd (localCompletionSource resolveInner context s)))
                          (scope_chain resolveInner context)) \<and>
     (\<forall>ins outs. scope_chain resolveInner context = ins @ outs \<longrightarrow>
        options r =
          concat (map (\<lambda>n. scope_result (state_doc context) n
                        (snd (localCompletionSource resolveInner context s))) ins) @
          concat (map (\<lambda>n. scope_result (state_doc context) n
                        (snd (localCompletionSource resolveInner context s))) outs)) \<and>
     (\<forall>n \<in> set (inner_chain resolveInner context). name n \<in> ScopeNodes \<longrightarrow>
        set (scope_result (state_doc context) n
               (snd (localCompletionSource resolveInner context s))) \<subseteq> set (options r)) \<and>
     (distinct_ids (state_tree context) \<and>
      cache_consistent (state_doc context) (state_tree context) s \<longrightarrow>
        options r = concat (map (scope_candidates (state_doc context))
                             (scope_chain resolveInner context)) \<and>
        cache_consistent (state_doc context) (state_tree context)
          (snd (localCompletionSource resolveInner context s)))"
proof -
  let ?d = "state_doc context" and ?s' = "snd (localCompletionSource resolveInner context s)"
  let ?L = "scopes_loop ?d (inner_chain resolveInner context) ([], s)"
  from assms(2) have r: "options r = fst ?L" and s': "?s' = snd ?L"
    by (auto simp: local_unfold split: if_splits)
  from scopes_loop_result [OF assms(1), of ?d "inner_chain resolveInner context" "[]"]
  have o: "options r = concat (map (\<lambda>n. scope_result ?d n ?s') (scope_chain resolveInner context))"
    unfolding r s' scope_chain_def by simp
  have 2: "options r = concat (map (\<lambda>n. scope_result ?d n ?s') ins) @
                       concat (map (\<lambda>n. scope_result ?d n ?s') outs)"
    if "scope_chain resolveInner context = ins @ outs" for ins outs
    using o that by simp
  have 3: "set (scope_result ?d n ?s') \<subseteq> set (options r)"
    if "n \<in> set (inner_chain resolveInner context)" "name n \<in> ScopeNodes" for n
  proof -
    from that have "n \<in> set (scope_chain resolveInner context)" by (simp add: scope_chain_def)
    then show ?thesis unfolding o by auto
  qed
  have 4: "options r = concat (map (scope_candidates ?d) (scope_chain resolveInner context)) \<and>
           cache_consistent ?d (state_tree context) ?s'"
    if d: "distinct_ids (state_tree context)" and c: "cache_consistent ?d (state_tree context) s"
  proof -
    have ok: "cache_ok ?d (state_tree context) s" using c cache_consistent_ok [OF d] by simp
    note L = scopes_loop_correct [OF d inner_chain_subnodes ok, of resolveInner "[]"]
    from local_result [OF d ok, of resolveInner] assms(2)
    have "options r = concat (map (scope_candidates ?d) (scope_chain resolveInner context))"
      by (auto split: if_splits)
    moreover have "cache_consistent ?d (state_tree context) ?s'"
      using L cache_consistent_ok [OF d] unfolding s' by simp
    ultimately show ?thesis ..
  qed
  from o 2 3 4 show ?thesis by blast
qed

theorem options_innermost_first_witness:
  "calls init_state ex_stale \<and> \<not> reachable ex_doc ex_tree ex_stale \<and>
   valid_refs ex_stale \<and>
   fst (localCompletionSource ex_resolve ex_context ex_stale) = Some ex_result \<and>
   distinct_ids (state_tree ex_context) \<and>
   cache_consistent (state_doc ex_context) (state_tree ex_context) ex_stale \<and>
   scope_chain ex_resolve ex_context = [ex_class] @ [ex_body, ex_function, ex_tree] \<and>
   options ex_result =
     concat (map (\<lambda>n. scope_result ex_doc n (snd (localCompletionSource ex_resolve ex_context ex_stale)))
               [ex_class]) @
     concat (map (\<lambda>n. scope_result ex_doc n (snd (localCompletionSource ex_resolve ex_context ex_stale)))
               [ex_body, ex_function, ex_tree]) \<and>
   set (scope_result ex_doc ex_body (snd (localCompletionSource ex_resolve ex_context ex_stale)))
     \<subseteq> set (options ex_result) \<and>
   options ex_result = concat (map (scope_candidates ex_doc) [ex_class, ex_body, ex_function, ex_tree]) \<and>
   options ex_result = [ex_Bar, ex_foo, ex_Baz]"
proof -
  have d: "distinct_ids (state_tree ex_context)"
    using ex_distinct by (simp add: ex_context_def)
  have k: "cache_consistent (state_doc ex_context) (state_tree ex_context) ex_stale"
    using ex_stale_consistent by (simp add: ex_context_def)
  have c: "scope_chain ex_resolve ex_context = [ex_class] @ [ex_body, ex_function, ex_tree]"
    by (simp add: ex_defs local_defs ScopeNodes_def)
  have i: "ex_body \<in> set (inner_chain ex_resolve ex_context)" "name ex_body \<in> ScopeNodes"
    by (simp_all add: ex_defs local_defs ScopeNodes_def)
  have o: "options ex_result = [ex_Bar, ex_foo, ex_Baz]" by (simp add: ex_result_def)
  have sd: "state_doc ex_context = ex_doc" by (simp add: ex_context_def)
  note t = options_innermost_first [OF ex_stale_valid ex_stale_local]
  from t c have 1: "options ex_result =
     concat (map (\<lambda>n. scope_result ex_doc n (snd (localCompletionSource ex_resolve ex_context ex_stale)))
               [ex_class]) @
     concat (map (\<lambda>n. scope_result ex_doc n (snd (localCompletionSource ex_resolve ex_context ex_stale)))
               [ex_body, ex_function, ex_tree])"
    unfolding sd by blast
  from t i have 2: "set (scope_result ex_doc ex_body (snd (localCompletionSource ex_resolve ex_context ex_stale)))
     \<subseteq> set (options ex_result)"
    unfolding sd by blast
  from t d k have "options ex_result = concat (map (scope_candidates (state_doc ex_context))
      (scope_chain ex_resolve ex_context))" by blast
  then have 3: "options ex_result = concat (map (scope_candidates ex_doc) [ex_class, ex_body, ex_function, ex_tree])"
    unfolding sd c by simp
  from ex_stale_calls ex_stale_unreachable ex_stale_valid ex_stale_local d k c 1 2 3 o
  show ?thesis by blast
qed




text \<open>
  Claim C3: a call of \<^verbatim>\<open>getScope\<close> leaves the array it returns in the cache under the
  identity of its node, and a later call with this node, for any document and after
  any number of other calls, returns the same array (the same address) and changes
  nothing; the contents of the array are the same as after the first call.
\<close>

theorem getScope_reuses_cached_list:
  assumes "getScope doc node s = (c, s1)" and "calls s1 s2"
  shows "cache s1 (ident node) = Some c \<and> getScope doc' node s2 = (c, s2) \<and>
         (c < length (heap s1) \<longrightarrow> heap s2 ! c = heap s1 ! c)"
proof -
  have 1: "cache s1 (ident node) = Some c" using getScope_cached [OF assms(1)] .
  note g = calls_grow [OF assms(2)]
  from g 1 have "cache s2 (ident node) = Some c"
    by (auto simp: grow_def map_le_def dom_def)
  then have 2: "getScope doc' node s2 = (c, s2)" by (rule getScope_hit)
  have 3: "heap s2 ! c = heap s1 ! c" if "c < length (heap s1)"
    using g that by (simp add: grow_def)
  from 1 2 3 show ?thesis by blast
qed

theorem getScope_reuses_cached_list_witness:
  "getScope ex_doc ex_tree init_state = (0, ex_warm) \<and>
   calls ex_warm (snd (getScope ex_doc ex_body ex_warm)) \<and>
   cache ex_warm (ident ex_tree) = Some 0 \<and>
   getScope ex_doc ex_tree (snd (getScope ex_doc ex_body ex_warm)) =
     (0, snd (getScope ex_doc ex_body ex_warm)) \<and>
   0 < length (heap ex_warm) \<and>
   heap (snd (getScope ex_doc ex_body ex_warm)) ! 0 = heap ex_warm ! 0"
proof -
  have c: "calls ex_warm (snd (getScope ex_doc ex_body ex_warm))"
    by (rule calls.call [OF calls.none])
  have l: "0 < length (heap ex_warm)" by (simp add: ex_warm_def)
  from getScope_reuses_cached_list [OF ex_getScope c, of ex_doc] ex_getScope c l
  show ?thesis by simp
qed

text \<open>
  Claim C4: when the kind of the resolved node is \<^verbatim>\<open>String\<close>, \<^verbatim>\<open>FormatString\<close>,
  \<^verbatim>\<open>Comment\<close> or \<^verbatim>\<open>PropertyName\<close>, the result is \<^verbatim>\<open>null\<close> and the state is unchanged,
  whatever the value \<open>e\<close> of the explicit flag.
\<close>

theorem excluded_kinds_no_completion:
  assumes "name (inner_node resolveInner context) \<in> {''String'', ''FormatString'', ''Comment'', ''PropertyName''}"
  shows "localCompletionSource resolveInner (context\<lparr>explicit := e\<rparr>) s = (None, s)"
proof -
  have "inner_node resolveInner (context\<lparr>explicit := e\<rparr>) = inner_node resolveInner context"
    by (simp add: inner_node_def inner_chain_def)
  with assms show ?thesis
    by (simp add: localCompletionSource_def Let_def excluded_iff del: indexOf.simps)
qed

theorem excluded_kinds_no_completion_witness:
  "name (inner_node ex_resolve (ex_context\<lparr>pos := 28\<rparr>)) = ''String'' \<and>
   localCompletionSource ex_resolve (ex_context\<lparr>pos := 28, explicit := False\<rparr>) ex_warm = (None, ex_warm) \<and>
   localCompletionSource ex_resolve (ex_context\<lparr>pos := 28, explicit := True\<rparr>) ex_warm = (None, ex_warm)"
proof -
  have n: "name (inner_node ex_resolve (ex_context\<lparr>pos := 28\<rparr>)) = ''String''"
    by (simp add: ex_defs local_defs)
  then have m: "name (inner_node ex_resolve (ex_context\<lparr>pos := 28\<rparr>))
      \<in> {''String'', ''FormatString'', ''Comment'', ''PropertyName''}"
    by simp
  from excluded_kinds_no_completion [OF m, of False ex_warm]
    excluded_kinds_no_completion [OF m, of True ex_warm] n
  show ?thesis by simp
qed

text \<open>
  Claim C5: when the kind of the resolved node is not \<^verbatim>\<open>VariableName\<close>, its text is
  20 code units or longer or does not match \<^verbatim>\<open>Identifier\<close>, and its kind is not one of
  the excluded ones, then a request that is not explicit returns \<^verbatim>\<open>null\<close> and changes
  nothing, in any state whatever. An explicit one returns a result whose \<^verbatim>\<open>from\<close> is the
  cursor offset and whose \<^verbatim>\<open>validFor\<close> is \<^verbatim>\<open>Identifier\<close>, in any state whatever; its
  options are the lists of \<^verbatim>\<open>getScope\<close> for all the scope nodes enclosing the position,
  innermost first (in a state whose cache refers to allocated arrays), and these are
  the lists computed from the empty cache when the nodes of the tree have distinct
  identities and what the cache holds for them is right for the document.
\<close>

theorem non_word_needs_explicit:
  assumes "name (inner_node resolveInner context) \<noteq> ''VariableName''"
    and "\<not> nto (inner_node resolveInner context) - nfrom (inner_node resolveInner context) < 20 \<or>
         \<not> Identifier (sliceString (state_doc context) (nfrom (inner_node resolveInner context))
                          (nto (inner_node resolveInner context)))"
    and "name (inner_node resolveInner context) \<notin> set dontComplete"
  shows "(\<not> explicit context \<longrightarrow> localCompletionSource resolveInner context s = (None, s)) \<and>
         (explicit context \<longrightarrow>
            (\<exists>r. fst (localCompletionSource resolveInner context s) = Some r \<and>
                 rfrom r = pos context \<and> validFor r = Identifier \<and>
                 (valid_refs s \<longrightarrow>
                    options r = concat (map (\<lambda>n. scope_result (state_doc context) n
                                               (snd (localCompletionSource resolveInner context s)))
                                          (scope_chain resolveInner context))) \<and>
                 (distinct_ids (state_tree context) \<and>
                  cache_consistent (state_doc context) (state_tree context) s \<longrightarrow>
                    options r = concat (map (scope_candidates (state_doc context))
                                          (scope_chain resolveInner context)))))"
proof -
  let ?d = "state_doc context" and ?s' = "snd (localCompletionSource resolveInner context s)"
  let ?L = "scopes_loop ?d (inner_chain resolveInner context) ([], s)"
  have nw: "\<not> isWord context (inner_node resolveInner context)"
    using assms(1,2) by (auto simp: isWord_def)
  have ne: "\<not> indexOf dontComplete (name (inner_node resolveInner context)) > - 1"
    using assms(3) by (simp add: indexOf_mem)
  have 1: "localCompletionSource resolveInner context s = (None, s)" if "\<not> explicit context"
    using nw ne that by (simp add: local_unfold)
  have 2: "\<exists>r. fst (localCompletionSource resolveInner context s) = Some r \<and>
                 rfrom r = pos context \<and> validFor r = Identifier \<and>
                 (valid_refs s \<longrightarrow>
                    options r = concat (map (\<lambda>n. scope_result ?d n ?s')
                                          (scope_chain resolveInner context))) \<and>
                 (distinct_ids (state_tree context) \<and>
                  cache_consistent ?d (state_tree context) s \<longrightarrow>
                    options r = concat (map (scope_candidates ?d)
                                          (scope_chain resolveInner context)))"
    if e: "explicit context"
  proof -
    let ?r = "\<lparr>options = fst ?L, rfrom = pos context, validFor = Identifier\<rparr>"
    have f: "fst (localCompletionSource resolveInner context s) = Some ?r"
      and s': "?s' = snd ?L"
      using nw ne e by (simp_all add: local_unfold)
    have a: "options ?r = concat (map (\<lambda>n. scope_result ?d n ?s') (scope_chain resolveInner context))"
      if v: "valid_refs s"
      using scopes_loop_result [OF v, of ?d "inner_chain resolveInner context" "[]"]
      unfolding s' scope_chain_def by simp
    have b: "options ?r = concat (map (scope_candidates ?d) (scope_chain resolveInner context))"
      if d: "distinct_ids (state_tree context)" and c: "cache_consistent ?d (state_tree context) s"
    proof -
      have ok: "cache_ok ?d (state_tree context) s" using c cache_consistent_ok [OF d] by simp
      from local_result [OF d ok, of resolveInner] f nw ne e show ?thesis by simp
    qed
    from f a b show ?thesis by (intro exI [of _ ?r]) simp
  qed
  from 1 2 show ?thesis by blast
qed

theorem non_word_needs_explicit_witness:
  "name (inner_node ex_resolve (ex_context\<lparr>pos := 31\<rparr>)) = ''Body'' \<and>
   \<not> Identifier (sliceString ex_doc 25 32) \<and>
   localCompletionSource ex_resolve (ex_context\<lparr>pos := 31\<rparr>) ex_stale = (None, ex_stale) \<and>
   valid_refs ex_stale \<and> distinct_ids ex_tree \<and> cache_consistent ex_doc ex_tree ex_stale \<and>
   (\<exists>r. fst (localCompletionSource ex_resolve (ex_context\<lparr>pos := 31, explicit := True\<rparr>) ex_stale) = Some r \<and>
        rfrom r = 31 \<and>
        options r = concat (map (\<lambda>n. scope_result ex_doc n
            (snd (localCompletionSource ex_resolve (ex_context\<lparr>pos := 31, explicit := True\<rparr>) ex_stale)))
          [SyntaxNode 8 ''Body'' 25 32 [SyntaxNode 13 ''String'' 27 30 []],
           ex_class, ex_body, ex_function, ex_tree]) \<and>
        options r = concat (map (scope_candidates ex_doc)
          [SyntaxNode 8 ''Body'' 25 32 [SyntaxNode 13 ''String'' 27 30 []],
           ex_class, ex_body, ex_function, ex_tree]))"
proof -
  let ?c = "ex_context\<lparr>pos := 31\<rparr>" and ?e = "ex_context\<lparr>pos := 31, explicit := True\<rparr>"
  have n: "name (inner_node ex_resolve ?c) = ''Body''" "name (inner_node ex_resolve ?e) = ''Body''"
    by (simp_all add: ex_defs local_defs)
  have t: "nfrom (inner_node ex_resolve ?c) = 25" "nto (inner_node ex_resolve ?c) = 32"
    "nfrom (inner_node ex_resolve ?e) = 25" "nto (inner_node ex_resolve ?e) = 32"
    by (simp_all add: ex_defs local_defs)
  have i: "\<not> Identifier (sliceString ex_doc 25 32)"
    by (simp add: ex_defs local_defs sliceString_def)
  have x: "explicit ?e" "\<not> explicit ?c" by (simp_all add: ex_context_def)
  have sc: "scope_chain ex_resolve ?e =
      [SyntaxNode 8 ''Body'' 25 32 [SyntaxNode 13 ''String'' 27 30 []],
       ex_class, ex_body, ex_function, ex_tree]"
    "state_doc ?e = ex_doc" "state_doc ?c = ex_doc" "pos ?e = 31" "state_tree ?e = ex_tree"
    by (simp_all add: ex_defs local_defs ScopeNodes_def)
  have h: "name (inner_node ex_resolve ?c) \<noteq> ''VariableName''"
    "\<not> nto (inner_node ex_resolve ?c) - nfrom (inner_node ex_resolve ?c) < 20 \<or>
     \<not> Identifier (sliceString (state_doc ?c) (nfrom (inner_node ex_resolve ?c)) (nto (inner_node ex_resolve ?c)))"
    "name (inner_node ex_resolve ?c) \<notin> set dontComplete"
    "name (inner_node ex_resolve ?e) \<noteq> ''VariableName''"
    "\<not> nto (inner_node ex_resolve ?e) - nfrom (inner_node ex_resolve ?e) < 20 \<or>
     \<not> Identifier (sliceString (state_doc ?e) (nfrom (inner_node ex_resolve ?e)) (nto (inner_node ex_resolve ?e)))"
    "name (inner_node ex_resolve ?e) \<notin> set dontComplete"
    using n t i sc by (simp_all add: dontComplete_def)
  have 1: "localCompletionSource ex_resolve ?c ex_stale = (None, ex_stale)"
    using non_word_needs_explicit [OF h(1-3), of ex_stale] x by blast
  from non_word_needs_explicit [OF h(4-6), of ex_stale] x(1)
  obtain r where r: "fst (localCompletionSource ex_resolve ?e ex_stale) = Some r"
    "rfrom r = pos ?e"
    "valid_refs ex_stale \<longrightarrow> options r = concat (map (\<lambda>n. scope_result (state_doc ?e) n
        (snd (localCompletionSource ex_resolve ?e ex_stale))) (scope_chain ex_resolve ?e))"
    "distinct_ids (state_tree ?e) \<and> cache_consistent (state_doc ?e) (state_tree ?e) ex_stale \<longrightarrow>
       options r = concat (map (scope_candidates (state_doc ?e)) (scope_chain ex_resolve ?e))"
    by blast
  from r ex_stale_valid ex_distinct ex_stale_consistent
  have 2: "\<exists>r. fst (localCompletionSource ex_resolve ?e ex_stale) = Some r \<and>
        rfrom r = 31 \<and>
        options r = concat (map (\<lambda>n. scope_result ex_doc n
            (snd (localCompletionSource ex_resolve ?e ex_stale)))
          [SyntaxNode 8 ''Body'' 25 32 [SyntaxNode 13 ''String'' 27 30 []],
           ex_class, ex_body, ex_function, ex_tree]) \<and>
        options r = concat (map (scope_candidates ex_doc)
          [SyntaxNode 8 ''Body'' 25 32 [SyntaxNode 13 ''String'' 27 30 []],
           ex_class, ex_body, ex_function, ex_tree])"
    unfolding sc by (intro exI [of _ r]) simp
  from 1 2 n(1) i ex_stale_valid ex_distinct ex_stale_consistent show ?thesis by blast
qed

text \<open>
  Claim C6 says that \<^verbatim>\<open>Identifier\<close> rejects every string that starts with a decimal
  digit. The first character class of the expression contains \<^verbatim>\<open>\w\<close>, which contains
  the digits: the strings \<^verbatim>\<open>123\<close> and \<^verbatim>\<open>1abc\<close> match.
\<close>

theorem Identifier_accepts_leading_digit:
  "Identifier [0x31, 0x32, 0x33] \<and> Identifier [0x31, 0x61, 0x62, 0x63]"
  by (simp add: Identifier_first_def Identifier_rest_def word_char_def digit_char_def)

text \<open>
  Claim C7: at an anonymous node that is not the root of the walk and is wider than
  8192, the walk calls \<^verbatim>\<open>getScope\<close> on the node, which leaves its result in the cache
  under the node's identity, pushes the elements of the returned array in order onto
  the current array, and does not visit the children itself. The current array is not
  in the cache while it is filled, so the returned array is another one, and the
  current array afterwards holds what it held before followed by the elements of the
  returned one. At an anonymous node of width 8192 or less the walk goes on with the
  children.

  The effect on the lists: for an anonymous node at any depth below a node \<open>p\<close>, with
  only nodes of kinds outside \<^verbatim>\<open>ScopeNodes\<close> between them, the list that \<^verbatim>\<open>getScope\<close>
  computes for \<open>p\<close> is the list for the part of \<open>p\<close> before the node, then the node's own
  list, then the list for the part of \<open>p\<close> after it, and the node's own list is made of
  the lists gathered at its children, in order, whatever its width. The effect on the
  cache, for a node that the walk of \<open>p\<close> comes to: if it is wider than 8192 it has an
  entry after \<^verbatim>\<open>getScope\<close> has run on \<open>p\<close>, and the entry holds the node's own list; if
  its width is 8192 or less and it had no entry, it has none afterwards.
\<close>

theorem large_anonymous_spliced:
  assumes "name node = []"
  shows "(8192 < nto node - nfrom node \<longrightarrow>
            (case getScope doc node s of (c, s1) \<Rightarrow>
               iterate doc a node (False, s) = (False, push_all a (heap s1 ! c) s1) \<and>
               cache s1 (ident node) = Some c \<and>
               (a < length (heap s) \<and> cache s (ident node) \<noteq> Some a \<longrightarrow>
                  c \<noteq> a \<and> heap s1 ! a = heap s ! a \<and>
                  heap (push_all a (heap s1 ! c) s1) ! a = heap s ! a @ heap s1 ! c))) \<and>
         (nto node - nfrom node \<le> 8192 \<longrightarrow>
            iterate doc a node (False, s) = iterate_children doc a (children node) (False, s)) \<and>
         (below transparent p \<pi> = Some node \<and> distinct_ids p \<longrightarrow>
            scope_candidates doc p =
              scope_candidates doc (before p \<pi>) @ scope_candidates doc node @
              scope_candidates doc (after p \<pi>) \<and>
            scope_candidates doc node = concat (map (gathered doc) (children node))) \<and>
         (below walked p \<pi> = Some node \<and> cache s (ident p) = None \<longrightarrow>
            (8192 < nto node - nfrom node \<longrightarrow>
               ident node \<in> dom (cache (snd (getScope doc p s))) \<and>
               (distinct_ids p \<and> cache_consistent doc p s \<longrightarrow>
                  heap (snd (getScope doc p s)) ! the (cache (snd (getScope doc p s)) (ident node)) =
                    scope_candidates doc node)) \<and>
            (nto node - nfrom node \<le> 8192 \<and> distinct_ids p \<and> ident node \<notin> dom (cache s) \<longrightarrow>
               ident node \<notin> dom (cache (snd (getScope doc p s)))))"
proof -
  obtain c s1 where gs: "getScope doc node s = (c, s1)" by (cases "getScope doc node s")
  have 1: "iterate doc a node (False, s) = (False, push_all a (heap s1 ! c) s1)"
    if "8192 < nto node - nfrom node"
    using assms that gs by (simp add: iterate.simps)
  have 2: "cache s1 (ident node) = Some c" using getScope_cached [OF gs] .
  have 3: "c \<noteq> a \<and> heap s1 ! a = heap s ! a \<and>
           heap (push_all a (heap s1 ! c) s1) ! a = heap s ! a @ heap s1 ! c"
    if a: "a < length (heap s)" and na: "cache s (ident node) \<noteq> Some a"
  proof -
    note g = getScope_grow [OF gs]
    from g a have same: "heap s1 ! a = heap s ! a" and a1: "a < length (heap s1)"
      by (auto simp: grow_def)
    have "c \<noteq> a"
    proof (cases "cache s (ident node)")
      case None
      with gs a show ?thesis by (simp add: getScope_miss)
    next
      case (Some b)
      with gs na show ?thesis by (simp add: getScope_hit)
    qed
    with same a1 show ?thesis by (simp add: push_all_heap)
  qed
  have 4: "iterate doc a node (False, s) = iterate_children doc a (children node) (False, s)"
    if "nto node - nfrom node \<le> 8192"
    using assms that by (simp add: iterate.simps)
  have A: "(8192 < nto node - nfrom node \<longrightarrow>
            (case getScope doc node s of (c, s1) \<Rightarrow>
               iterate doc a node (False, s) = (False, push_all a (heap s1 ! c) s1) \<and>
               cache s1 (ident node) = Some c \<and>
               (a < length (heap s) \<and> cache s (ident node) \<noteq> Some a \<longrightarrow>
                  c \<noteq> a \<and> heap s1 ! a = heap s ! a \<and>
                  heap (push_all a (heap s1 ! c) s1) ! a = heap s ! a @ heap s1 ! c)))"
    using 1 2 3 by (simp add: gs)
  have tr: "transparent node" using assms by (simp add: transparent_def empty_not_scope)
  have B: "scope_candidates doc p =
              scope_candidates doc (before p \<pi>) @ scope_candidates doc node @
              scope_candidates doc (after p \<pi>) \<and>
            scope_candidates doc node = concat (map (gathered doc) (children node))"
    if b: "below transparent p \<pi> = Some node" and d: "distinct_ids p"
  proof -
    have dn: "distinct_ids node" using distinct_ids_sub_node [OF below_in_tree [OF b] d] .
    from scope_split [OF b d, of doc] gathered_transparent_scope [OF tr dn, of doc]
      scope_candidates_children [OF dn, of doc]
    show ?thesis by simp
  qed
  have C: "ident node \<in> dom (cache (snd (getScope doc p s))) \<and>
           (distinct_ids p \<and> cache_consistent doc p s \<longrightarrow>
              heap (snd (getScope doc p s)) ! the (cache (snd (getScope doc p s)) (ident node)) =
                scope_candidates doc node)"
    if b: "below walked p \<pi> = Some node" and m: "cache s (ident p) = None"
      and l: "8192 < nto node - nfrom node"
  proof -
    have la: "large_anon node" using assms l by (simp add: large_anon_def)
    from reach_cached [OF m b la, of doc]
    obtain k where k: "cache (snd (getScope doc p s)) (ident node) = Some k" by auto
    have "heap (snd (getScope doc p s)) ! k = scope_candidates doc node"
      if "distinct_ids p" "cache_consistent doc p s"
      using cached_content [OF that below_in_tree [OF b] k] .
    with k show ?thesis by auto
  qed
  have D: "ident node \<notin> dom (cache (snd (getScope doc p s)))"
    if b: "below walked p \<pi> = Some node" and m: "cache s (ident p) = None"
      and l: "nto node - nfrom node \<le> 8192" and d: "distinct_ids p"
      and n: "ident node \<notin> dom (cache s)"
  proof -
    have "\<not> large_anon node" using l by (simp add: large_anon_def)
    from small_not_cached [OF m b this d n] show ?thesis .
  qed
  from A 4 B C D show ?thesis by blast
qed

theorem large_anonymous_spliced_witness:
  "name ex_repeat = [] \<and> 8192 < nto ex_repeat - nfrom ex_repeat \<and>
   iterate ex_doc 0 ex_repeat (False, ex_fresh) =
     (False, \<lparr>heap = [[ex_Baz], [ex_Baz]], cache = [9 \<mapsto> 1]\<rparr>) \<and>
   getScope ex_doc ex_repeat ex_fresh = (1, \<lparr>heap = [[], [ex_Baz]], cache = [9 \<mapsto> 1]\<rparr>) \<and>
   below walked ex_tree [1] = Some ex_repeat \<and>
   ident ex_repeat \<in> dom (cache (snd (getScope ex_doc ex_tree init_state))) \<and>
   heap (snd (getScope ex_doc ex_tree init_state)) !
     the (cache (snd (getScope ex_doc ex_tree init_state)) (ident ex_repeat)) = [ex_Baz] \<and>
   scope_candidates ex_doc ex_tree = [ex_foo] @ scope_candidates ex_doc ex_repeat @ [] \<and>
   scope_candidates ex_doc ex_repeat = [ex_Baz] \<and>
   name nest_anon = [] \<and> nto nest_anon - nfrom nest_anon \<le> 8192 \<and>
   below walked nest_tree [1, 2, 0] = Some nest_anon \<and>
   ident nest_anon \<notin> dom (cache (snd (getScope nest_doc nest_tree init_state))) \<and>
   scope_candidates nest_doc nest_tree = [cand_A] @ scope_candidates nest_doc nest_anon @ [cand_D] \<and>
   scope_candidates nest_doc nest_anon = [cand_B, cand_f, cand_C]"
proof -
  have a: "name ex_repeat = []" "8192 < nto ex_repeat - nfrom ex_repeat"
    "name nest_anon = []" "nto nest_anon - nfrom nest_anon \<le> 8192"
    by (simp_all add: ex_defs nest_defs)
  have g: "getScope ex_doc ex_repeat ex_fresh = (1, \<lparr>heap = [[], [ex_Baz]], cache = [9 \<mapsto> 1]\<rparr>)"
    by (simp add: ex_defs eval_defs)
  have p: "0 < length (heap ex_fresh)" "cache ex_fresh (ident ex_repeat) \<noteq> Some 0"
    by (simp_all add: ex_defs)
  have b: "below walked ex_tree [1] = Some ex_repeat" "below transparent ex_tree [1] = Some ex_repeat"
    by (simp_all add: ex_defs)
  have m: "cache init_state (ident ex_tree) = None" "cache init_state (ident nest_tree) = None"
    "ident nest_anon \<notin> dom (cache init_state)"
    by (simp_all add: init_state_def)
  have k: "cache_consistent ex_doc ex_tree init_state"
    by (simp add: cache_consistent_def init_state_def)
  have w: "scope_candidates ex_doc (before ex_tree [1]) = [ex_foo]"
    "scope_candidates ex_doc (after ex_tree [1]) = []"
    "scope_candidates ex_doc ex_repeat = [ex_Baz]"
    by (simp_all add: scope_candidates_def ex_defs eval_defs)
  have wn: "scope_candidates nest_doc (before nest_tree [1, 2, 0]) = [cand_A]"
    "scope_candidates nest_doc (after nest_tree [1, 2, 0]) = [cand_D]"
    "scope_candidates nest_doc nest_anon = [cand_B, cand_f, cand_C]"
    by (simp_all add: scope_candidates_def nest_defs eval_defs init_state_def)
  note L = large_anonymous_spliced [OF a(1), where doc = ex_doc and s = ex_fresh and a = 0]
  from L a(2) g p
  have 1: "iterate ex_doc 0 ex_repeat (False, ex_fresh) =
     (False, \<lparr>heap = [[ex_Baz], [ex_Baz]], cache = [9 \<mapsto> 1]\<rparr>)"
    by (simp add: push_def)
  note T = large_anonymous_spliced [OF a(1), where doc = ex_doc and s = init_state
      and p = ex_tree and \<pi> = "[1]"]
  from T b a(2) m(1) ex_distinct k
  have 2: "ident ex_repeat \<in> dom (cache (snd (getScope ex_doc ex_tree init_state)))"
    and 3: "heap (snd (getScope ex_doc ex_tree init_state)) !
     the (cache (snd (getScope ex_doc ex_tree init_state)) (ident ex_repeat)) =
       scope_candidates ex_doc ex_repeat"
    and 4: "scope_candidates ex_doc ex_tree =
       scope_candidates ex_doc (before ex_tree [1]) @ scope_candidates ex_doc ex_repeat @
       scope_candidates ex_doc (after ex_tree [1])"
    by blast+
  note N = large_anonymous_spliced [OF a(3), where doc = nest_doc and s = init_state
      and p = nest_tree and \<pi> = "[1, 2, 0]"]
  from N nest_paths(4,5) a(4) m(2,3) nest_distinct
  have 5: "ident nest_anon \<notin> dom (cache (snd (getScope nest_doc nest_tree init_state)))"
    and 6: "scope_candidates nest_doc nest_tree =
       scope_candidates nest_doc (before nest_tree [1, 2, 0]) @ scope_candidates nest_doc nest_anon @
       scope_candidates nest_doc (after nest_tree [1, 2, 0])"
    by blast+
  from 1 2 3 4 5 6 a g b(1) w wn nest_paths(5) show ?thesis by simp
qed

text \<open>
  Claim C8: at a named node, not the root of the walk, whose kind is neither
  \<^verbatim>\<open>FunctionDefinition\<close> nor \<^verbatim>\<open>ClassDefinition\<close> nor in \<^verbatim>\<open>ScopeNodes\<close>, the table has no
  extractor, nothing is pushed, and the walk goes on with the children. The kinds
  \<^verbatim>\<open>toString\<close> and \<^verbatim>\<open>constructor\<close> are such kinds.

  The effect on the lists: for such a node at any depth below a node \<open>p\<close>, with only
  nodes of kinds outside \<^verbatim>\<open>ScopeNodes\<close> between them, the list that \<^verbatim>\<open>getScope\<close> computes
  for \<open>p\<close> is the list for the part of \<open>p\<close> before the node, then what is gathered at the
  children of the node, in order, then the list for the part of \<open>p\<close> after it: the node
  adds nothing of its own and hides nothing of what is below it. In the witness the
  node is an \<^verbatim>\<open>if\<close> statement between two classes, with three definitions in its block.
\<close>

theorem unknown_kind_descended:
  assumes "name node \<noteq> []" and "name node \<noteq> ''FunctionDefinition''"
    and "name node \<noteq> ''ClassDefinition''" and "name node \<notin> ScopeNodes"
  shows "gatherCompletions (name node) = None \<and>
         iterate doc a node (False, s) = iterate_children doc a (children node) (False, s) \<and>
         (below transparent p \<pi> = Some node \<and> distinct_ids p \<longrightarrow>
            scope_candidates doc p =
              scope_candidates doc (before p \<pi>) @ scope_candidates doc node @
              scope_candidates doc (after p \<pi>) \<and>
            scope_candidates doc node = concat (map (gathered doc) (children node)))"
proof -
  have g: "gatherCompletions (name node) = None"
    using assms(2,3) by (simp add: gather_None)
  with assms(1,4) have st: "iterate doc a node (False, s) =
      iterate_children doc a (children node) (False, s)"
    by (simp add: iterate.simps)
  have tr: "transparent node" using assms(4) by (simp add: transparent_def)
  have 3: "scope_candidates doc p =
              scope_candidates doc (before p \<pi>) @ scope_candidates doc node @
              scope_candidates doc (after p \<pi>) \<and>
            scope_candidates doc node = concat (map (gathered doc) (children node))"
    if b: "below transparent p \<pi> = Some node" and d: "distinct_ids p"
  proof -
    have dn: "distinct_ids node" using distinct_ids_sub_node [OF below_in_tree [OF b] d] .
    from scope_split [OF b d, of doc] gathered_transparent_scope [OF tr dn, of doc]
      scope_candidates_children [OF dn, of doc]
    show ?thesis by simp
  qed
  from g st 3 show ?thesis by blast
qed

theorem unknown_kind_descended_witness:
  "gatherCompletions ''toString'' = None \<and> gatherCompletions ''constructor'' = None \<and>
   iterate ex_doc 0 ex_odd (False, ex_fresh) = (False, \<lparr>heap = [[ex_foo]], cache = Map.empty\<rparr>) \<and>
   name nest_if = ''IfStatement'' \<and> below transparent nest_tree [1] = Some nest_if \<and>
   distinct_ids nest_tree \<and>
   scope_candidates nest_doc nest_tree = [cand_A] @ scope_candidates nest_doc nest_if @ [cand_D] \<and>
   scope_candidates nest_doc nest_if = [cand_B, cand_f, cand_C] \<and>
   scope_candidates nest_doc nest_tree = [cand_A, cand_B, cand_f, cand_C, cand_D]"
proof -
  have h: "name ex_odd \<noteq> []" "name ex_odd \<noteq> ''FunctionDefinition''"
    "name ex_odd \<noteq> ''ClassDefinition''" "name ex_odd \<notin> ScopeNodes" "name ex_odd = ''toString''"
    by (simp_all add: ex_odd_def ScopeNodes_def)
  have hi: "name nest_if \<noteq> []" "name nest_if \<noteq> ''FunctionDefinition''"
    "name nest_if \<noteq> ''ClassDefinition''" "name nest_if \<notin> ScopeNodes" "name nest_if = ''IfStatement''"
    by (simp_all add: nest_if_def ScopeNodes_def)
  have v: "iterate ex_doc 0 ex_odd (False, ex_fresh) = (False, \<lparr>heap = [[ex_foo]], cache = Map.empty\<rparr>)"
    "gatherCompletions ''constructor'' = None"
    by (simp_all add: ex_defs eval_defs)
  have w: "scope_candidates nest_doc (before nest_tree [1]) = [cand_A]"
    "scope_candidates nest_doc (after nest_tree [1]) = [cand_D]"
    "scope_candidates nest_doc nest_if = [cand_B, cand_f, cand_C]"
    by (simp_all add: scope_candidates_def nest_defs eval_defs init_state_def)
  from unknown_kind_descended [OF h(1-4), where doc = ex_doc and a = 0 and s = ex_fresh] h(5)
  have 1: "gatherCompletions ''toString'' = None" by simp
  from unknown_kind_descended [OF hi(1-4), where doc = nest_doc and p = nest_tree and \<pi> = "[1]"]
    nest_paths(3) nest_distinct w
  have 2: "scope_candidates nest_doc nest_tree = [cand_A] @ scope_candidates nest_doc nest_if @ [cand_D]"
    by simp
  from 1 2 v w hi(5) nest_paths(3) nest_distinct nest_scope show ?thesis by blast
qed

text \<open>
  Claim C9: in any state that calls of \<^verbatim>\<open>getScope\<close> on this document and tree have
  produced, \<^verbatim>\<open>localCompletionSource\<close> returns the same result (the same options,
  \<^verbatim>\<open>from\<close> and \<^verbatim>\<open>validFor\<close>, or \<^verbatim>\<open>null\<close>) as on the empty cache, and the state it
  leaves is again such a state.
\<close>

theorem warm_cache_same_result:
  assumes "distinct_ids (state_tree context)"
    and "reachable (state_doc context) (state_tree context) s"
  shows "fst (localCompletionSource resolveInner context s) =
           fst (localCompletionSource resolveInner context init_state) \<and>
         reachable (state_doc context) (state_tree context)
           (snd (localCompletionSource resolveInner context s))"
proof -
  have ok: "cache_ok (state_doc context) (state_tree context) s"
    using reachable_cache_ok [OF assms(1,2)] .
  have "fst (localCompletionSource resolveInner context s) =
           fst (localCompletionSource resolveInner context init_state)"
    unfolding local_result [OF assms(1) ok] local_result [OF assms(1) cache_ok_init] ..
  with local_reachable [OF assms(2)] show ?thesis by simp
qed

theorem warm_cache_same_result_witness:
  "distinct_ids (state_tree ex_context) \<and>
   reachable (state_doc ex_context) (state_tree ex_context) ex_warm \<and>
   fst (localCompletionSource ex_resolve ex_context init_state) = Some ex_result \<and>
   fst (localCompletionSource ex_resolve ex_context ex_warm) = Some ex_result"
proof -
  have d: "distinct_ids (state_tree ex_context)"
    using ex_distinct by (simp add: ex_context_def)
  have r: "reachable (state_doc ex_context) (state_tree ex_context) ex_warm"
    using ex_reachable by (simp add: ex_context_def)
  from warm_cache_same_result [OF d r, of ex_resolve] d r ex_local
  show ?thesis by simp
qed

text \<open>
  Claim C10: a call of \<^verbatim>\<open>getScope\<close> that misses the cache returns a newly allocated
  array and leaves it in the cache under the identity of its node. It removes and
  overwrites no entry; the entries it adds are for its node and for anonymous nodes
  wider than 8192 below it, and every such node among the children of its node has an
  entry afterwards. A later call with the same node returns the same array and changes
  nothing.
\<close>

theorem getScope_miss_writes_entry:
  assumes "cache s (ident node) = None" and "getScope doc node s = (c, s')"
  shows "cache s' (ident node) = Some c \<and> c = length (heap s) \<and> c < length (heap s') \<and>
         cache s \<subseteq>\<^sub>m cache s' \<and>
         dom (cache s') \<subseteq> dom (cache s) \<union> {ident node} \<union> spliced_ids node \<and>
         (\<forall>m \<in> set (children node). large_anon m \<longrightarrow> ident m \<in> dom (cache s')) \<and>
         getScope doc' node s' = (c, s')"
proof -
  let ?a = "length (heap s)" and ?s1 = "s\<lparr>heap := heap s @ [[]]\<rparr>"
  let ?w = "iterate_children doc ?a (children node) (False, ?s1)"
  have it: "iterate doc ?a node (True, ?s1) = ?w" by (simp add: iterate.simps)
  from assms have c: "c = ?a" and s': "s' = (snd ?w)\<lparr>cache := (cache (snd ?w))(ident node \<mapsto> ?a)\<rparr>"
    by (auto simp: getScope_miss it)
  have 1: "cache s' (ident node) = Some c" using getScope_cached [OF assms(2)] .
  from cache_growth(1) [of s doc node] assms(2)
  have g: "grow ?a s s'" and dm: "dom (cache s') \<subseteq> dom (cache s) \<union> {ident node} \<union> spliced_ids node"
    by simp_all
  from cache_growth(3) [of "(False, ?s1)" doc ?a "children node"]
  have "length (heap ?s1) \<le> length (heap (snd ?w))" by (simp add: grow_def)
  then have 3: "c < length (heap s')" using c s' by simp
  have 4: "cache s \<subseteq>\<^sub>m cache s'" using g by (simp add: grow_def)
  have 6: "ident m \<in> dom (cache s')" if "m \<in> set (children node)" "large_anon m" for m
    using spliced_child_cached [OF that, of "(False, ?s1)" doc ?a] s' by simp
  have 7: "getScope doc' node s' = (c, s')" using getScope_again [OF assms(2)] .
  from 1 c 3 4 dm 6 7 show ?thesis by blast
qed

theorem getScope_miss_writes_entry_witness:
  "cache init_state (ident ex_tree) = None \<and> getScope ex_doc ex_tree init_state = (0, ex_warm) \<and>
   cache ex_warm (ident ex_tree) = Some 0 \<and>
   ex_repeat \<in> set (children ex_tree) \<and> large_anon ex_repeat \<and> name ex_repeat \<notin> ScopeNodes \<and>
   ident ex_repeat \<in> dom (cache ex_warm) \<and>
   getScope ex_doc ex_tree ex_warm = (0, ex_warm)"
proof -
  have m: "cache init_state (ident ex_tree) = None" by (simp add: init_state_def)
  have l: "ex_repeat \<in> set (children ex_tree)" "large_anon ex_repeat" "name ex_repeat \<notin> ScopeNodes"
    by (simp_all add: ex_tree_def ex_repeat_def large_anon_def ScopeNodes_def)
  from getScope_miss_writes_entry [OF m ex_getScope, of ex_doc] m ex_getScope l
  show ?thesis by simp
qed

end
